theory Spec2Isabelle
  imports Main "HOL-Library.AList"
begin

section \<open>Paths and strings\<close>

text \<open>
  A \<open>pathlib.Path\<close> is modelled by the list of its components below the filesystem
  root; \<open>p / "x"\<close> is \<open>p @ [''x'']\<close>, \<open>p.parent\<close> drops the last component and
  \<open>p.name\<close> is the last component.  \<open>str(p)\<close> is rendered in the POSIX flavour, and
  names are compared case-sensitively.  The directory holding \<open>tasks.py\<close>
  (\<open>Path(__file__).parent\<close>) is a parameter \<open>repo_dir\<close> of every task body.
\<close>

type_synonym path = "string list"

definition path_parent :: "path \<Rightarrow> path" where
  "path_parent p = butlast p"

definition path_name :: "path \<Rightarrow> string" where
  "path_name p = (if p = [] then [] else last p)"

fun join_with :: "string \<Rightarrow> string list \<Rightarrow> string" where
  "join_with sep [] = []"
| "join_with sep [x] = x"
| "join_with sep (x # y # ys) = x @ sep @ join_with sep (y # ys)"

definition str_path :: "path \<Rightarrow> string" where
  "str_path p = ''/'' @ join_with ''/'' p"

definition endswith :: "string \<Rightarrow> string \<Rightarrow> bool" where
  "endswith s suf = (length suf \<le> length s \<and> drop (length s - length suf) s = suf)"

fun contains :: "string \<Rightarrow> string \<Rightarrow> bool" where
  "contains [] sub = (sub = [])"
| "contains (x # xs) sub = (take (length sub) (x # xs) = sub \<or> contains xs sub)"

text \<open>Python truthiness of an optional string: \<open>None\<close> and \<open>""\<close> are false.\<close>

fun truthy :: "string option \<Rightarrow> bool" where
  "truthy None = False"
| "truthy (Some v) = (v \<noteq> [])"

section \<open>Failures\<close>

text \<open>
  Every way a task body or the machinery around it can fail.  \<open>CommandFailed\<close> is the
  executor's failure for a non-zero exit status (command string and exit code);
  \<open>RuntimeError\<close> is the exception \<open>publish\<close> raises; the \<open>OSError\<close> family is what
  the filesystem calls raise; the last two belong to the namespace registry.
\<close>

datatype error =
    CommandFailed string int
  | RuntimeError string
  | FileExistsError path
  | FileNotFoundError path
  | NotADirectoryError path
  | PermissionError path
  | DuplicateTaskName string
  | UnknownTask string

definition MissingCredential :: error where
  "MissingCredential = RuntimeError ''Missing NuGet API key. Pass --api-key or set NUGET_API_KEY.''"

section \<open>The filesystem collaborator\<close>

text \<open>
  The filesystem is a tree.  A node is a regular file or a directory with its
  entries in listing order; the flag \<open>locked\<close> marks an entry whose removal
  (\<open>os.unlink\<close>, \<open>os.rmdir\<close>) the operating system refuses.
\<close>

datatype node =
    File bool
  | Dir bool "(string \<times> node) list"

fun fs_lookup :: "path \<Rightarrow> node \<Rightarrow> node option" where
  "fs_lookup [] n = Some n"
| "fs_lookup (c # cs) (File l) = None"
| "fs_lookup (c # cs) (Dir l es) =
     (case map_of es c of None \<Rightarrow> None | Some m \<Rightarrow> fs_lookup cs m)"

definition path_exists :: "node \<Rightarrow> path \<Rightarrow> bool" where
  "path_exists fs p = (fs_lookup p fs \<noteq> None)"

definition is_dir :: "node \<Rightarrow> path \<Rightarrow> bool" where
  "is_dir fs p = (case fs_lookup p fs of Some (Dir l es) \<Rightarrow> True | _ \<Rightarrow> False)"

definition listdir :: "node \<Rightarrow> path \<Rightarrow> string list" where
  "listdir fs p = (case fs_lookup p fs of Some (Dir l es) \<Rightarrow> map fst es | _ \<Rightarrow> [])"

text \<open>
  \<open>dir.glob("*" + ext)\<close>: the entries of \<open>dir\<close> whose name ends with \<open>ext\<close>, as
  full paths, in listing order; nothing when \<open>dir\<close> is not a directory.  The listing is
  taken once, when the iteration starts.
\<close>

definition glob_star :: "node \<Rightarrow> path \<Rightarrow> string \<Rightarrow> path list" where
  "glob_star fs dir ext = map (\<lambda>n. dir @ [n]) (filter (\<lambda>n. endswith n ext) (listdir fs dir))"

text \<open>
  \<open>root.rglob(nm)\<close>: for every directory at or below \<open>root\<close>, in pre-order, its entry
  called \<open>nm\<close> when there is one.
\<close>

fun rglob_node :: "string \<Rightarrow> node \<Rightarrow> path list" where
  "rglob_node nm (File l) = []"
| "rglob_node nm (Dir l es) =
     (if nm \<in> fst ` set es then [[nm]] else []) @
     concat (map (\<lambda>e. map ((#) (fst e)) (rglob_node nm (snd e))) es)"

definition rglob :: "node \<Rightarrow> path \<Rightarrow> string \<Rightarrow> path list" where
  "rglob fs root nm =
     (case fs_lookup root fs of None \<Rightarrow> [] | Some n \<Rightarrow> map ((@) root) (rglob_node nm n))"

text \<open>
  \<open>Path.mkdir(exist_ok=ok)\<close> (no \<open>parents\<close>): creates the last component when its
  parent is a directory; an existing directory is accepted when \<open>ok\<close>; anything else
  is an \<open>OSError\<close>.
\<close>

fun mkdir_node :: "bool \<Rightarrow> path \<Rightarrow> path \<Rightarrow> node \<Rightarrow> error + node" where
  "mkdir_node ok full [] (Dir l es) = (if ok then Inr (Dir l es) else Inl (FileExistsError full))"
| "mkdir_node ok full [] (File l) = Inl (FileExistsError full)"
| "mkdir_node ok full (c # cs) (File l) = Inl (NotADirectoryError full)"
| "mkdir_node ok full (c # cs) (Dir l es) =
     (case map_of es c of
        None \<Rightarrow> if cs = [] then Inr (Dir l (es @ [(c, Dir False [])]))
                else Inl (FileNotFoundError full)
      | Some m \<Rightarrow>
          (case mkdir_node ok full cs m of
             Inl e \<Rightarrow> Inl e
           | Inr m' \<Rightarrow> Inr (Dir l (AList.update c m' es))))"

text \<open>
  \<open>shutil.rmtree(p, ignore_errors=ie)\<close>.  Every failing step goes to the error handler:
  with \<open>ignore_errors\<close> the handler swallows the error and the walk goes on, without it
  the error is raised and the walk stops where it is.
\<close>

definition onerror :: "bool \<Rightarrow> error \<Rightarrow> error option" where
  "onerror ie e = (if ie then None else Some e)"

definition kept :: "string \<Rightarrow> node option \<Rightarrow> (string \<times> node) list" where
  "kept c r = (case r of None \<Rightarrow> [] | Some n \<Rightarrow> [(c, n)])"

fun rm_node :: "bool \<Rightarrow> path \<Rightarrow> node \<Rightarrow> error option \<times> node option"
  and rm_entries :: "bool \<Rightarrow> path \<Rightarrow> (string \<times> node) list \<Rightarrow> error option \<times> (string \<times> node) list"
where
  "rm_node ie p (File l) =
     (if l then (onerror ie (PermissionError p), Some (File l)) else (None, None))"
| "rm_node ie p (Dir l es) =
     (case rm_entries ie p es of
        (Some e, es') \<Rightarrow> (Some e, Some (Dir l es'))
      | (None, es') \<Rightarrow>
          (if es' = [] \<and> \<not> l then (None, None)
           else (onerror ie (PermissionError p), Some (Dir l es'))))"
| "rm_entries ie p [] = (None, [])"
| "rm_entries ie p ((c, n) # es) =
     (case rm_node ie (p @ [c]) n of
        (Some e, r) \<Rightarrow> (Some e, kept c r @ es)
      | (None, r) \<Rightarrow>
          (case rm_entries ie p es of (e, es') \<Rightarrow> (e, kept c r @ es')))"

fun replace_at :: "path \<Rightarrow> node option \<Rightarrow> node \<Rightarrow> node" where
  "replace_at [] r n = (case r of None \<Rightarrow> n | Some n' \<Rightarrow> n')"
| "replace_at (c # cs) r (File l) = File l"
| "replace_at (c # cs) r (Dir l es) =
     (if cs = [] then
        Dir l (case r of None \<Rightarrow> AList.delete c es | Some n' \<Rightarrow> AList.update c n' es)
      else
        (case map_of es c of
           None \<Rightarrow> Dir l es
         | Some m \<Rightarrow> Dir l (AList.update c (replace_at cs r m) es)))"

text \<open>
  Called on a missing path or on a regular file, \<open>rmtree\<close> removes nothing: listing the
  path fails and so does \<open>os.rmdir\<close>.  The filesystem root itself is never removable.
\<close>

definition rmtree_fs :: "bool \<Rightarrow> path \<Rightarrow> node \<Rightarrow> error option \<times> node" where
  "rmtree_fs ie p fs =
     (case fs_lookup p fs of
        None \<Rightarrow> (onerror ie (FileNotFoundError p), fs)
      | Some (File l) \<Rightarrow> (onerror ie (NotADirectoryError p), fs)
      | Some (Dir l es) \<Rightarrow>
          (case rm_node ie p (Dir (l \<or> p = []) es) of (e, r) \<Rightarrow> (e, replace_at p r fs)))"

section \<open>Invocation state and effects\<close>

text \<open>
  One external command as the executor launches it: the command line, the working
  directory the process observes, and the environment overlay handed to this one call.
\<close>

record command =
  cmd_line :: string
  cmd_cwd :: string
  cmd_env :: "(string \<times> string) list"

text \<open>
  The external toolchain (\<open>dotnet\<close>) is a parameter: given a command and the
  filesystem it returns the exit status and the filesystem it leaves behind.
\<close>

type_synonym toolchain = "command \<Rightarrow> node \<Rightarrow> int \<times> node"

record state =
  files :: node
  environ :: "string \<Rightarrow> string option"
  ambient_cwd :: string
  cwd_stack :: "string list"
  issued :: "command list"
  printed :: "string list"

text \<open>
  An effect takes the state and returns the failure it raised, if any, with the state
  it left: a Python exception undoes nothing.
\<close>

type_synonym action = "state \<Rightarrow> error option \<times> state"

definition skip :: action where
  "skip s = (None, s)"

definition raise :: "error \<Rightarrow> action" where
  "raise e s = (Some e, s)"

definition seq :: "action \<Rightarrow> action \<Rightarrow> action" where
  "seq a b s = (case a s of (None, s1) \<Rightarrow> b s1 | (Some e, s1) \<Rightarrow> (Some e, s1))"

fun for_each :: "'a list \<Rightarrow> ('a \<Rightarrow> action) \<Rightarrow> action" where
  "for_each [] f s = (None, s)"
| "for_each (x # xs) f s =
     (case f x s of (None, s1) \<Rightarrow> for_each xs f s1 | (Some e, s1) \<Rightarrow> (Some e, s1))"

definition print :: "string \<Rightarrow> action" where
  "print line s = (None, s\<lparr>printed := printed s @ [line]\<rparr>)"

definition getenv :: "state \<Rightarrow> string \<Rightarrow> string option" where
  "getenv s k = environ s k"

definition rmtree :: "path \<Rightarrow> bool \<Rightarrow> action" where
  "rmtree p ignore_errors s =
     (case rmtree_fs ignore_errors p (files s) of (e, fs') \<Rightarrow> (e, s\<lparr>files := fs'\<rparr>))"

definition mkdir :: "path \<Rightarrow> bool \<Rightarrow> action" where
  "mkdir p exist_ok s =
     (case mkdir_node exist_ok p p (files s) of
        Inl e \<Rightarrow> (Some e, s)
      | Inr fs' \<Rightarrow> (None, s\<lparr>files := fs'\<rparr>))"

subsection \<open>Command Executor and directory scopes\<close>

text \<open>
  Modelled from the spec: the Command Executor \<open>c.run\<close> and the directory scope
  \<open>with c.cd(path)\<close> belong to the task library, which is not among the sources.
  Spec 4.1: \<open>run\<close> spawns exactly one process per call, with the given working
  directory and environment overlay, and signals \<open>CommandFailed\<close> with the command
  string and exit code on a non-zero status.  Spec 5: entering a directory scope pushes,
  and the previous directory is restored on every exit path.
\<close>

definition current_cwd :: "state \<Rightarrow> string" where
  "current_cwd s = (case cwd_stack s of [] \<Rightarrow> ambient_cwd s | d # ds \<Rightarrow> d)"

definition run :: "toolchain \<Rightarrow> string \<Rightarrow> (string \<times> string) list \<Rightarrow> action" where
  "run tool line env s =
     (let cmd = \<lparr>cmd_line = line, cmd_cwd = current_cwd s, cmd_env = env\<rparr>;
          (status, fs') = tool cmd (files s);
          s' = s\<lparr>files := fs', issued := issued s @ [cmd]\<rparr>
      in (if status = 0 then None else Some (CommandFailed line status), s'))"

definition cd :: "string \<Rightarrow> action \<Rightarrow> action" where
  "cd dir body s =
     (case body (s\<lparr>cwd_stack := dir # cwd_stack s\<rparr>) of
        (r, s1) \<Rightarrow> (r, s1\<lparr>cwd_stack := tl (cwd_stack s1)\<rparr>))"

section \<open>The task bodies of \<open>tasks.py\<close>\<close>

definition build :: "toolchain \<Rightarrow> path \<Rightarrow> action" where
  "build tool repo_dir =
     (let realtimelog_dir = repo_dir @ [''src'', ''TestRift.NUnit''];
          example_dir = repo_dir @ [''Example'']
      in seq (print ''Building TestRift.NUnit library...'')
        (seq (cd (str_path realtimelog_dir) (run tool ''dotnet build'' []))
        (seq (print ''Building Example tests...'')
             (cd (str_path example_dir) (run tool ''dotnet build'' [])))))"

text \<open>
  In \<open>clean\<close> the paths of each \<open>rglob\<close> are enumerated when the loop starts; the loop
  body tests each of them again (\<open>is_dir\<close>) on the filesystem the earlier deletions left.
\<close>

definition clean :: "path \<Rightarrow> action" where
  "clean repo_dir =
     seq (\<lambda>s. for_each (rglob (files s) repo_dir ''bin'')
                (\<lambda>p s. if is_dir (files s) p then rmtree p True s else skip s) s)
    (seq (\<lambda>s. for_each (rglob (files s) repo_dir ''obj'')
                (\<lambda>p s. if is_dir (files s) p then rmtree p True s else skip s) s)
         (\<lambda>s. let artifacts = repo_dir @ [''artifacts'']
               in if path_exists (files s) artifacts then rmtree artifacts True s else skip s))"

definition pack :: "toolchain \<Rightarrow> path \<Rightarrow> string \<Rightarrow> action" where
  "pack tool repo_dir configuration =
     (let proj_dir = repo_dir @ [''src'', ''TestRift.NUnit''];
          out_dir = repo_dir @ [''artifacts'']
      in seq (mkdir out_dir True)
             (cd (str_path proj_dir)
                (run tool (''dotnet pack -c '' @ configuration @ '' -o ..'' @ [CHR 0x5C] @ ''..''
                             @ [CHR 0x5C] @ ''artifacts'') [])))"

definition push_command :: "path \<Rightarrow> string \<Rightarrow> string \<Rightarrow> string" where
  "push_command pkg api_key source =
     ''dotnet nuget push \"'' @ str_path pkg @ ''\" --api-key \"'' @ api_key
       @ ''\" --source \"'' @ source @ ''\" --skip-duplicate''"

definition publish :: "toolchain \<Rightarrow> path \<Rightarrow> string \<Rightarrow> string option \<Rightarrow> action" where
  "publish tool repo_dir source api_key s =
     (let api_key = (case api_key of None \<Rightarrow> getenv s ''NUGET_API_KEY'' | Some k \<Rightarrow> Some k)
      in case api_key of
           None \<Rightarrow> raise MissingCredential s
         | Some key \<Rightarrow>
             if key = [] then raise MissingCredential s
             else
               (let artifacts_dir = repo_dir @ [''artifacts'']
                in for_each (glob_star (files s) artifacts_dir ''.nupkg'')
                     (\<lambda>pkg. if endswith (path_name pkg) ''.snupkg'' then skip
                            else run tool (push_command pkg key source) []) s))"

definition restore_local :: "toolchain \<Rightarrow> path \<Rightarrow> action" where
  "restore_local tool repo_dir s =
     (let server_nuget_dir =
            path_parent repo_dir @ [''testrift-server'', ''nuget'', ''TestRift.Server'', ''bin'', ''Release'']
      in if \<not> path_exists (files s) server_nuget_dir then
           seq (print (''ERROR: Local TestRift.Server package not found at: '' @ str_path server_nuget_dir))
               (print ''Run 'inv build-nuget' in testrift-server directory first.'') s
         else
           (let projects =
              [repo_dir @ [''Example'', ''ExampleTests.csproj''],
               repo_dir @ [''tests'', ''TestRift.NUnit.Tests'', ''TestRift.NUnit.Tests.csproj''],
               repo_dir @ [''tests'', ''TestRift.NUnit.Tests.MaxVersions'',
                           ''TestRift.NUnit.Tests.MaxVersions.csproj''],
               repo_dir @ [''tests'', ''TestRift.NUnit.Integration.Tests'',
                           ''TestRift.NUnit.Integration.Tests.csproj'']]
            in seq (print (''Using local TestRift.Server feed: '' @ str_path server_nuget_dir))
                 (for_each projects
                    (\<lambda>proj. seq (print (''\<newline>Restoring '' @ path_name (path_parent proj) @ ''...''))
                                (run tool (''dotnet restore \"'' @ str_path proj @ ''\" --force'') []))) s))"

definition run_example :: "toolchain \<Rightarrow> path \<Rightarrow> string option \<Rightarrow> string \<Rightarrow> action" where
  "run_example tool repo_dir filter_arg server_url =
     (let example_dir = repo_dir @ [''Example''];
          env = [(''TEST_LOG_SERVER_URL'', server_url), (''TEST_DUT_NAME'', ''INVOKE-TEST'')];
          cmd = ''dotnet test --logger console;verbosity=normal'';
          cmd = (case filter_arg of
                   None \<Rightarrow> cmd
                 | Some f \<Rightarrow> if f = [] then cmd else cmd @ '' --filter '' @ f)
      in seq (print (''Running example tests (server: '' @ server_url @ '')...''))
             (cd (str_path example_dir) (run tool cmd env)))"

text \<open>
  The vocabulary of the property of \<open>publish\<close>: a list of commands handed to the
  toolchain one after the other, each on the filesystem its predecessor left, up to and
  including the first one that exits with a non-zero status.  The result is the list
  of the commands that were launched, the failure of the last of them if it failed, and
  the filesystem left behind.
\<close>

fun run_until_failure :: "toolchain \<Rightarrow> command list \<Rightarrow> node \<Rightarrow> command list \<times> error option \<times> node" where
  "run_until_failure tool [] fs = ([], None, fs)"
| "run_until_failure tool (c # cs) fs =
     (case tool c fs of
        (status, fs1) \<Rightarrow>
          if status = 0 then
            (case run_until_failure tool cs fs1 of (launched, r, fs2) \<Rightarrow> (c # launched, r, fs2))
          else ([c], Some (CommandFailed (cmd_line c) status), fs1))"

section \<open>Tasks and their prerequisites\<close>

text \<open>
  A task is its name, the ordered list of its prerequisites (\<open>@task(pre=[...])\<close>) and
  its body.  A body takes the keyword arguments of the call; a parameter the caller
  leaves out takes its declared default.
\<close>

datatype 'b task = Task (task_name: string) (pre: "'b task list") (body: 'b)

type_synonym kwargs = "string \<Rightarrow> string option"

definition no_args :: kwargs where
  "no_args = (\<lambda>k. None)"

definition arg_or :: "kwargs \<Rightarrow> string \<Rightarrow> string \<Rightarrow> string" where
  "arg_or kw k d = (case kw k of None \<Rightarrow> d | Some v \<Rightarrow> v)"

definition build_task :: "toolchain \<Rightarrow> path \<Rightarrow> (kwargs \<Rightarrow> action) task" where
  "build_task tool repo_dir = Task ''build'' [] (\<lambda>kw. build tool repo_dir)"

definition clean_task :: "path \<Rightarrow> (kwargs \<Rightarrow> action) task" where
  "clean_task repo_dir = Task ''clean'' [] (\<lambda>kw. clean repo_dir)"

definition pack_task :: "toolchain \<Rightarrow> path \<Rightarrow> (kwargs \<Rightarrow> action) task" where
  "pack_task tool repo_dir =
     Task ''pack'' [clean_task repo_dir]
       (\<lambda>kw. pack tool repo_dir (arg_or kw ''configuration'' ''Release''))"

definition publish_task :: "toolchain \<Rightarrow> path \<Rightarrow> (kwargs \<Rightarrow> action) task" where
  "publish_task tool repo_dir =
     Task ''publish'' [pack_task tool repo_dir]
       (\<lambda>kw. publish tool repo_dir (arg_or kw ''source'' ''https://api.nuget.org/v3/index.json'')
                (kw ''api_key''))"

definition restore_local_task :: "toolchain \<Rightarrow> path \<Rightarrow> (kwargs \<Rightarrow> action) task" where
  "restore_local_task tool repo_dir = Task ''restore_local'' [] (\<lambda>kw. restore_local tool repo_dir)"

definition run_example_task :: "toolchain \<Rightarrow> path \<Rightarrow> (kwargs \<Rightarrow> action) task" where
  "run_example_task tool repo_dir =
     Task ''run_example'' []
       (\<lambda>kw. run_example tool repo_dir (kw ''filter'') (arg_or kw ''server_url'' ''http://localhost:8080''))"

subsection \<open>Task Resolver\<close>

text \<open>
  Modelled from the spec: the Task Resolver, which belongs to the task library and is
  not among the sources.  Spec 4.3: it builds the prerequisite closure by a depth-first
  walk in declared order, skipping any task already executed within this invocation;
  runs each prerequisite body (no arguments) in visit order, then the requested task's
  body with the arguments; on any failure it stops immediately and surfaces the
  original failure.  Tasks are identified by name.
\<close>

fun walk :: "'b task \<Rightarrow> 'b task list \<Rightarrow> 'b task list" where
  "walk (Task n ps b) seen =
     (if n \<in> task_name ` set seen then seen
      else fold (\<lambda>p acc. walk p acc) ps seen @ [Task n ps b])"

definition prerequisite_closure :: "'b task \<Rightarrow> 'b task list" where
  "prerequisite_closure t = fold (\<lambda>p acc. walk p acc) (pre t) []"

text \<open>
  Modelled from the spec: the resolver's execution of the schedule (spec 4.3, 4.2), not
  among the sources.  The bodies run in order and the first failure stops the run.
  The result carries the names of the bodies that were started, the failure if one was
  raised, and the final state.
\<close>

fun run_calls :: "(string \<times> ('s \<Rightarrow> 'e option \<times> 's)) list \<Rightarrow> 's \<Rightarrow> string list \<times> 'e option \<times> 's" where
  "run_calls [] s = ([], None, s)"
| "run_calls ((n, a) # rest) s =
     (case a s of
        (Some e, s1) \<Rightarrow> ([n], Some e, s1)
      | (None, s1) \<Rightarrow> (case run_calls rest s1 of (tr, r, s2) \<Rightarrow> (n # tr, r, s2)))"

text \<open>
  Modelled from the spec: a prerequisite is invoked with an empty argument set, the
  requested task with the caller's arguments (spec 4.2, 4.3).
\<close>

definition prereq_call :: "(kwargs \<Rightarrow> 's \<Rightarrow> 'e option \<times> 's) task \<Rightarrow> string \<times> ('s \<Rightarrow> 'e option \<times> 's)" where
  "prereq_call p = (task_name p, body p no_args)"

definition resolve_and_run ::
  "(kwargs \<Rightarrow> 's \<Rightarrow> 'e option \<times> 's) task \<Rightarrow> kwargs \<Rightarrow> 's \<Rightarrow> string list \<times> 'e option \<times> 's" where
  "resolve_and_run t args s =
     run_calls (map prereq_call (prerequisite_closure t) @ [(task_name t, body t args)]) s"

text \<open>
  The vocabulary of the resolver's properties.  \<open>subtasks t\<close> lists every task
  reachable from \<open>t\<close> through prerequisites, \<open>t\<close> included.  Names identify tasks:
  \<open>consistent t\<close> says that two reachable tasks with the same name are the same task.
  \<open>postorder t\<close> is the depth-first order in which the declarations reach the tasks,
  prerequisites in declared order before the task itself, a shared prerequisite once
  per path; \<open>dedupe\<close> keeps the first occurrence of every name.  \<open>prereqs_first seen ts\<close>
  says that each task of \<open>ts\<close> comes after all of its declared prerequisites.
\<close>

fun subtasks :: "'b task \<Rightarrow> 'b task list" where
  "subtasks (Task n ps b) = Task n ps b # concat (map subtasks ps)"

definition consistent :: "'b task \<Rightarrow> bool" where
  "consistent t =
     (\<forall>u \<in> set (subtasks t). \<forall>v \<in> set (subtasks t). task_name u = task_name v \<longrightarrow> u = v)"

fun postorder :: "'b task \<Rightarrow> string list" where
  "postorder (Task n ps b) = concat (map postorder ps) @ [n]"

fun first_occurrences :: "'a list \<Rightarrow> 'a list \<Rightarrow> 'a list" where
  "first_occurrences acc [] = acc"
| "first_occurrences acc (x # xs) = first_occurrences (if x \<in> set acc then acc else acc @ [x]) xs"

definition dedupe :: "'a list \<Rightarrow> 'a list" where
  "dedupe xs = first_occurrences [] xs"

fun prereqs_first :: "string list \<Rightarrow> 'b task list \<Rightarrow> bool" where
  "prereqs_first seen [] = True"
| "prereqs_first seen (u # us) =
     (list_all (\<lambda>p. task_name p \<in> set seen) (pre u) \<and> prereqs_first (seen @ [task_name u]) us)"

subsection \<open>Namespace Registry\<close>

text \<open>
  Modelled from the spec: the Namespace Registry (\<open>Collection\<close>, \<open>add_task\<close>,
  \<open>add_collection\<close>), which belongs to the task library and is not among the sources.
  Spec 4.4: \<open>register\<close> fails with \<open>DuplicateTaskName\<close> if the name already exists;
  \<open>merge\<close> qualifies every task of the sub-registry with the prefix and the separator
  and fails with \<open>DuplicateTaskName\<close> on any resulting collision; \<open>lookup\<close> is by exact
  match and fails with \<open>UnknownTask\<close>.
\<close>

type_synonym 'b registry = "(string \<times> 'b task) list"

definition register :: "'b task \<Rightarrow> 'b registry \<Rightarrow> error + 'b registry" where
  "register t reg =
     (if task_name t \<in> fst ` set reg then Inl (DuplicateTaskName (task_name t))
      else Inr (reg @ [(task_name t, t)]))"

definition qualify :: "string \<Rightarrow> string \<Rightarrow> string" where
  "qualify prefix n = prefix @ ''.'' @ n"

fun merge :: "string \<Rightarrow> 'b registry \<Rightarrow> 'b registry \<Rightarrow> error + 'b registry" where
  "merge prefix [] reg = Inr reg"
| "merge prefix ((n, t) # sub) reg =
     (if qualify prefix n \<in> fst ` set reg then Inl (DuplicateTaskName (qualify prefix n))
      else merge prefix sub (reg @ [(qualify prefix n, t)]))"

definition lookup :: "'b registry \<Rightarrow> string \<Rightarrow> error + 'b task" where
  "lookup reg q = (case map_of reg q of None \<Rightarrow> Inl (UnknownTask q) | Some t \<Rightarrow> Inr t)"

definition and_then :: "error + 'a \<Rightarrow> ('a \<Rightarrow> error + 'c) \<Rightarrow> error + 'c" where
  "and_then r f = (case r of Inl e \<Rightarrow> Inl e | Inr v \<Rightarrow> f v)"

text \<open>
  The namespace \<open>ns\<close> of \<open>tasks.py\<close>: the six tasks, then the collection loaded from
  \<open>tests/tasks.py\<close> merged under the name \<open>test\<close>.  That module is not among the
  sources; its collection is the parameter \<open>test_tasks\<close>.
\<close>

definition ns ::
  "toolchain \<Rightarrow> path \<Rightarrow> (kwargs \<Rightarrow> action) registry \<Rightarrow> error + (kwargs \<Rightarrow> action) registry" where
  "ns tool repo_dir test_tasks =
     and_then (register (build_task tool repo_dir) []) (\<lambda>r.
     and_then (register (clean_task repo_dir) r) (\<lambda>r.
     and_then (register (pack_task tool repo_dir) r) (\<lambda>r.
     and_then (register (publish_task tool repo_dir) r) (\<lambda>r.
     and_then (register (restore_local_task tool repo_dir) r) (\<lambda>r.
     and_then (register (run_example_task tool repo_dir) r) (\<lambda>r.
     merge ''test'' test_tasks r))))))"

text \<open>The six top-level entries of \<open>ns\<close>, in registration order.\<close>

definition top_level :: "toolchain \<Rightarrow> path \<Rightarrow> (kwargs \<Rightarrow> action) registry" where
  "top_level tool repo_dir =
     [(''build'', build_task tool repo_dir), (''clean'', clean_task repo_dir),
      (''pack'', pack_task tool repo_dir), (''publish'', publish_task tool repo_dir),
      (''restore_local'', restore_local_task tool repo_dir),
      (''run_example'', run_example_task tool repo_dir)]"

text \<open>
  Modelled from the spec: invocation by name (spec 2).  The entry point selects a task
  name and arguments, the registry looks the task up, the resolver runs it.
\<close>

definition invoke_task ::
  "(kwargs \<Rightarrow> 's \<Rightarrow> error option \<times> 's) registry \<Rightarrow> string \<Rightarrow> kwargs \<Rightarrow> 's
     \<Rightarrow> string list \<times> error option \<times> 's" where
  "invoke_task reg q args s =
     (case lookup reg q of Inl e \<Rightarrow> ([], Some e, s) | Inr t \<Rightarrow> resolve_and_run t args s)"

section \<open>Example inputs\<close>

text \<open>Concrete toolchains, filesystems and states on which the theorems below are exercised.\<close>

definition tool_ok :: toolchain where
  "tool_ok cmd fs = (0, fs)"

definition tool_fail :: toolchain where
  "tool_fail cmd fs = (1, fs)"

definition state_of :: "node \<Rightarrow> state" where
  "state_of fs = \<lparr>files = fs, environ = (\<lambda>k. None), ambient_cwd = ''/home/user'',
                  cwd_stack = [], issued = [], printed = []\<rparr>"

definition empty_fs :: node where
  "empty_fs = Dir False [(''repo'', Dir False [])]"


definition pkg_fs :: node where
  "pkg_fs = Dir False [(''repo'', Dir False [(''artifacts'', Dir False
       [(''Foo.1.0.0.nupkg'', File False), (''Foo.1.0.0.snupkg'', File False), (''notes.txt'', File False)])])]"

text \<open>A toolchain that fails exactly on the commands whose line mentions \<open>sub\<close>.\<close>

definition tool_fail_on :: "string \<Rightarrow> toolchain" where
  "tool_fail_on sub cmd fs = (if contains (cmd_line cmd) sub then 1 else 0, fs)"

definition two_pkg_fs :: node where
  "two_pkg_fs = Dir False [(''repo'', Dir False [(''artifacts'', Dir False
       [(''A.nupkg'', File False), (''B.nupkg'', File False)])])]"

text \<open>
  A diamond of tasks over a log of names: \<open>t\<close> declares \<open>p1\<close> and \<open>p2\<close>, which both
  declare \<open>c\<close>.  Each body appends its name to the log; the body called \<open>bad\<close> fails.
\<close>

definition log_body :: "string \<Rightarrow> string \<Rightarrow> kwargs \<Rightarrow> string list \<Rightarrow> error option \<times> string list" where
  "log_body bad n kw s = (if n = bad then Some (RuntimeError n) else None, s @ [n])"

definition diamond :: "string \<Rightarrow> (kwargs \<Rightarrow> string list \<Rightarrow> error option \<times> string list) task" where
  "diamond bad =
     Task ''t''
       [Task ''p1'' [Task ''c'' [] (log_body bad ''c'')] (log_body bad ''p1''),
        Task ''p2'' [Task ''c'' [] (log_body bad ''c'')] (log_body bad ''p2'')]
       (log_body bad ''t'')"

definition unit_task :: "(kwargs \<Rightarrow> action) task" where
  "unit_task = Task ''unit'' [] (\<lambda>kw. print ''running unit tests'')"

text \<open>Keyword arguments that pass an API key explicitly.\<close>

definition key_args :: kwargs where
  "key_args = (\<lambda>k. if k = ''api_key'' then Some ''KEY'' else None)"

section \<open>Properties of the effects\<close>

lemma contains_nil: "contains ys []"
  by (cases ys) simp_all

lemma contains_here: "contains (sub @ ys) sub"
  by (cases sub) (simp_all add: contains_nil)

lemma contains_append: "contains (xs @ sub @ ys) sub"
proof (induction xs)
  case Nil
  show ?case using contains_here by simp
next
  case (Cons x xs)
  then show ?case by simp
qed

lemma run_cwd_stack: "cwd_stack (snd (run tool line env s)) = cwd_stack s"
  by (simp add: run_def Let_def split: prod.splits)

lemma run_environ: "environ (snd (run tool line env s)) = environ s"
  by (simp add: run_def Let_def split: prod.splits)

lemma run_issued:
  "issued (snd (run tool line env s)) =
     issued s @ [\<lparr>cmd_line = line, cmd_cwd = current_cwd s, cmd_env = env\<rparr>]"
  by (simp add: run_def Let_def split: prod.splits)

lemma cd_balanced:
  assumes "\<And>s0. cwd_stack (snd (act s0)) = cwd_stack s0"
  shows "cwd_stack (snd (cd A act s)) = cwd_stack s"
proof -
  let ?s = "s\<lparr>cwd_stack := A # cwd_stack s\<rparr>"
  obtain r s1 where b: "act ?s = (r, s1)"
    by (cases "act ?s")
  from assms[of ?s] b have "cwd_stack s1 = A # cwd_stack s"
    by simp
  with b show ?thesis
    by (simp add: cd_def)
qed

lemma cd_run_issued:
  "issued (snd (cd A (run tool line env) s)) =
     issued s @ [\<lparr>cmd_line = line, cmd_cwd = A, cmd_env = env\<rparr>]"
  by (simp add: cd_def run_def Let_def current_cwd_def split: prod.splits)

lemma cd_run_ambient: "ambient_cwd (snd (cd A (run tool line env) s)) = ambient_cwd s"
  by (simp add: cd_def run_def Let_def split: prod.splits)

lemma print_cwd_stack: "cwd_stack (snd (print l s)) = cwd_stack s"
  by (simp add: print_def)

lemma seq_balanced:
  assumes "\<And>s0. cwd_stack (snd (a s0)) = cwd_stack s0"
    and "\<And>s0. cwd_stack (snd (b s0)) = cwd_stack s0"
  shows "cwd_stack (snd (seq a b s)) = cwd_stack s"
proof (cases "a s")
  case (Pair r s1)
  from assms(1)[of s] Pair have "cwd_stack s1 = cwd_stack s"
    by simp
  with Pair assms(2)[of s1] show ?thesis
    by (cases r) (simp_all add: seq_def)
qed

lemma build_balanced: "cwd_stack (snd (build tool repo_dir s)) = cwd_stack s"
  unfolding build_def Let_def
  by (intro seq_balanced cd_balanced run_cwd_stack print_cwd_stack)

lemma base_command_no_filter:
  "\<not> contains ''dotnet test --logger console;verbosity=normal'' ''--filter''"
  by code_simp

subsection \<open>Filesystem facts\<close>

lemma rm_ignore_errors:
  "fst (rm_node True p n) = None" "fst (rm_entries True p es) = None"
  by (induction True p n and True p es rule: rm_node_rm_entries.induct)
     (auto simp: onerror_def split: prod.splits option.splits)

lemma rmtree_fs_ignore_errors: "fst (rmtree_fs True p fs) = None"
proof (cases "fs_lookup p fs")
  case None
  then show ?thesis by (simp add: rmtree_fs_def onerror_def)
next
  case (Some n)
  show ?thesis
  proof (cases n)
    case (File l)
    with Some show ?thesis by (simp add: rmtree_fs_def onerror_def)
  next
    case (Dir l es)
    obtain e r where er: "rm_node True p (Dir (l \<or> p = []) es) = (e, r)"
      by (cases "rm_node True p (Dir (l \<or> p = []) es)")
    with rm_ignore_errors(1)[of p "Dir (l \<or> p = []) es"] have "e = None"
      by simp
    with Some Dir er show ?thesis by (simp add: rmtree_fs_def)
  qed
qed

lemma rmtree_ignore_errors: "fst (rmtree p True s) = None"
  using rmtree_fs_ignore_errors[of p "files s"]
  by (cases "rmtree_fs True p (files s)") (simp add: rmtree_def)

lemma for_each_never_fails:
  assumes "\<And>x s0. fst (f x s0) = None"
  shows "fst (for_each xs f s) = None"
proof (induction xs arbitrary: s)
  case Nil
  show ?case by simp
next
  case (Cons x xs)
  obtain r s1 where p: "f x s = (r, s1)" by (cases "f x s")
  with assms[of x s] have "r = None" by simp
  with p Cons show ?case by simp
qed

lemma seq_never_fails:
  assumes "\<And>s0. fst (a s0) = None" "\<And>s0. fst (b s0) = None"
  shows "fst (seq a b s) = None"
proof (cases "a s")
  case (Pair r s1)
  with assms(1)[of s] have "r = None" by simp
  with Pair assms(2)[of s1] show ?thesis by (simp add: seq_def)
qed

lemma clean_never_fails: "fst (clean repo_dir s) = None"
  unfolding clean_def
  by (intro seq_never_fails for_each_never_fails) (simp_all add: rmtree_ignore_errors skip_def Let_def)


lemma endswith_tl: "endswith n (c # suf) \<Longrightarrow> endswith n suf"
proof -
  assume a: "endswith n (c # suf)"
  then have l: "Suc (length suf) \<le> length n" and d: "drop (length n - Suc (length suf)) n = c # suf"
    by (simp_all add: endswith_def)
  from l have e: "length n - length suf = 1 + (length n - Suc (length suf))"
    by arith
  have "drop (length n - length suf) n = drop 1 (drop (length n - Suc (length suf)) n)"
    unfolding e by (simp only: drop_drop)
  with d have "drop (length n - length suf) n = suf" by simp
  with l show ?thesis by (simp add: endswith_def)
qed

lemma endswith_same_length: "endswith n a \<Longrightarrow> endswith n b \<Longrightarrow> length a = length b \<Longrightarrow> a = b"
  by (simp add: endswith_def)

lemma nupkg_not_snupkg: "endswith n ''.nupkg'' \<Longrightarrow> \<not> endswith n ''.snupkg''"
proof
  assume a: "endswith n ''.nupkg''" and b: "endswith n ''.snupkg''"
  from b have "endswith n ''snupkg''" by (rule endswith_tl)
  with a have "''.nupkg'' = ''snupkg''" by (rule endswith_same_length) simp
  then show False by simp
qed

subsection \<open>The loop of \<open>publish\<close>\<close>

lemma run_current_cwd: "current_cwd (snd (run tool line env s)) = current_cwd s"
  by (cases "tool \<lparr>cmd_line = line, cmd_cwd = current_cwd s, cmd_env = env\<rparr> (files s)")
     (simp add: run_def Let_def current_cwd_def split: list.splits)

lemma join_with_snoc:
  "join_with sep (xs @ [x]) = (if xs = [] then x else join_with sep xs @ sep @ x)"
  by (induction sep xs rule: join_with.induct) auto

lemma str_path_snoc_inj: "str_path (d @ [n]) = str_path (d @ [m]) \<Longrightarrow> n = m"
  by (simp add: str_path_def join_with_snoc split: if_splits)

lemma publish_with_key:
  assumes "(case api_key of None \<Rightarrow> getenv s ''NUGET_API_KEY'' | Some k \<Rightarrow> Some k) = Some key"
    and "key \<noteq> []"
  shows "publish tool repo_dir source api_key s =
     for_each (glob_star (files s) (repo_dir @ [''artifacts'']) ''.nupkg'')
        (\<lambda>pkg. if endswith (path_name pkg) ''.snupkg'' then skip
               else run tool (push_command pkg key source) []) s"
  using assms by (simp add: publish_def Let_def)

lemma run_until_failure_shape:
  "run_until_failure tool cs fs = (launched, r, fs') \<Longrightarrow>
     launched = take (length launched) cs
   \<and> (r = None \<longrightarrow> launched = cs)
   \<and> (\<forall>e. r = Some e \<longrightarrow> launched \<noteq> [] \<and> (\<exists>st. st \<noteq> 0 \<and> e = CommandFailed (cmd_line (last launched)) st))"
proof (induction cs arbitrary: fs launched r fs')
  case Nil
  then show ?case by simp
next
  case (Cons c cs)
  obtain st fs1 where t: "tool c fs = (st, fs1)"
    by (cases "tool c fs")
  show ?case
  proof (cases "st = 0")
    case False
    with Cons.prems t have "launched = [c]" "r = Some (CommandFailed (cmd_line c) st)"
      by simp_all
    with False show ?thesis by simp
  next
    case True
    obtain l2 r2 fs2 where rec: "run_until_failure tool cs fs1 = (l2, r2, fs2)"
      by (cases "run_until_failure tool cs fs1")
    with Cons.prems t True have e: "launched = c # l2" "r = r2"
      by simp_all
    from Cons.IH[OF rec] have ih: "l2 = take (length l2) cs" "r2 = None \<longrightarrow> l2 = cs"
      "\<forall>e. r2 = Some e \<longrightarrow> l2 \<noteq> [] \<and> (\<exists>st. st \<noteq> 0 \<and> e = CommandFailed (cmd_line (last l2)) st)"
      by blast+
    from ih(1) have a: "launched = take (length launched) (c # cs)"
      unfolding e by simp
    from ih(2) have b: "r = None \<longrightarrow> launched = c # cs"
      unfolding e by simp
    from ih(3) have d: "\<forall>e. r = Some e \<longrightarrow> launched \<noteq> [] \<and> (\<exists>st. st \<noteq> 0 \<and> e = CommandFailed (cmd_line (last launched)) st)"
      unfolding e by simp
    from a b d show ?thesis by blast
  qed
qed

lemma run_until_failure_succeeds:
  assumes "\<And>cmd fs0. fst (tool cmd fs0) = 0"
  shows "fst (snd (run_until_failure tool cs fs)) = None"
proof (induction cs arbitrary: fs)
  case Nil
  show ?case by simp
next
  case (Cons c cs)
  obtain st fs1 where t: "tool c fs = (st, fs1)"
    by (cases "tool c fs")
  with assms[of c fs] have "st = 0" by simp
  with t Cons.IH[of fs1] show ?case
    by (cases "run_until_failure tool cs fs1") simp
qed

lemma for_each_run_until_failure:
  fixes f :: "'a \<Rightarrow> action" and mk :: "string \<Rightarrow> 'a \<Rightarrow> command"
  assumes step: "\<And>x s0. x \<in> set xs \<Longrightarrow> f x s0 = run tool (cmd_line (mk (current_cwd s0) x)) [] s0"
    and mk: "\<And>x d. mk d x = \<lparr>cmd_line = cmd_line (mk d x), cmd_cwd = d, cmd_env = []\<rparr>"
  shows "for_each xs f s =
     (case run_until_failure tool (map (mk (current_cwd s)) xs) (files s) of
        (launched, r, fs') \<Rightarrow> (r, s\<lparr>files := fs', issued := issued s @ launched\<rparr>))"
  using step
proof (induction xs arbitrary: s)
  case Nil
  show ?case by simp
next
  case (Cons x xs)
  let ?c = "mk (current_cwd s) x"
  obtain st fs1 where t: "tool ?c (files s) = (st, fs1)"
    by (cases "tool ?c (files s)")
  let ?s1 = "s\<lparr>files := fs1, issued := issued s @ [?c]\<rparr>"
  have c: "\<lparr>cmd_line = cmd_line ?c, cmd_cwd = current_cwd s, cmd_env = []\<rparr> = ?c"
    using mk[of "current_cwd s" x] by simp
  have fx: "f x s = (if st = 0 then None else Some (CommandFailed (cmd_line ?c) st), ?s1)"
    using Cons.prems[of x s] t by (simp add: run_def Let_def c)
  show ?case
  proof (cases "st = 0")
    case False
    with fx t show ?thesis by simp
  next
    case True
    have cw: "current_cwd ?s1 = current_cwd s"
      by (simp add: current_cwd_def split: list.splits)
    have ih: "for_each xs f ?s1 =
       (case run_until_failure tool (map (mk (current_cwd ?s1)) xs) (files ?s1) of
          (launched, r, fs') \<Rightarrow> (r, ?s1\<lparr>files := fs', issued := issued ?s1 @ launched\<rparr>))"
      by (rule Cons.IH) (rule Cons.prems, simp)
    obtain l2 r2 fs2 where rec: "run_until_failure tool (map (mk (current_cwd s)) xs) fs1 = (l2, r2, fs2)"
      by (cases "run_until_failure tool (map (mk (current_cwd s)) xs) fs1")
    from ih rec have "for_each xs f ?s1 = (r2, s\<lparr>files := fs2, issued := issued s @ ?c # l2\<rparr>)"
      unfolding cw by simp
    with fx True t rec show ?thesis by simp
  qed
qed

subsection \<open>Invoking \<open>pack\<close>\<close>




subsection \<open>The prerequisite walk\<close>

lemma fo_append: "first_occurrences acc (xs @ ys) = first_occurrences (first_occurrences acc xs) ys"
  by (induction xs arbitrary: acc) simp_all

lemma fo_absorb: "set xs \<subseteq> set acc \<Longrightarrow> first_occurrences acc xs = acc"
  by (induction xs arbitrary: acc) simp_all

lemma fo_set: "set (first_occurrences acc xs) = set acc \<union> set xs"
  by (induction xs arbitrary: acc) auto

lemma fo_distinct: "distinct acc \<Longrightarrow> distinct (first_occurrences acc xs)"
  by (induction xs arbitrary: acc) simp_all

lemma subtasks_self: "t \<in> set (subtasks t)"
  by (cases t) simp

lemma subtasks_pre: "p \<in> set (pre t) \<Longrightarrow> set (subtasks p) \<subseteq> set (subtasks t)"
  by (cases t) auto

lemma postorder_names: "set (postorder t) = task_name ` set (subtasks t)"
  by (induction t rule: postorder.induct) auto

lemma subtasks_size: "u \<in> set (subtasks t) \<Longrightarrow> size u \<le> size t"
proof (induction t rule: subtasks.induct)
  case (1 n ps b)
  show ?case
  proof (cases "u = Task n ps b")
    case True
    then show ?thesis by simp
  next
    case False
    with 1(2) obtain p where p: "p \<in> set ps" "u \<in> set (subtasks p)"
      by auto
    from 1(1)[OF p] have "size u \<le> size p" .
    moreover from p(1) have "size p \<le> size_list size ps"
      by (simp add: size_list_estimation')
    ultimately show ?thesis by simp
  qed
qed

lemma proper_subtask_neq:
  assumes "p \<in> set ps" "u \<in> set (subtasks p)"
  shows "u \<noteq> Task n ps b"
proof
  assume "u = Task n ps b"
  with subtasks_size[OF assms(2)] have "size (Task n ps b) \<le> size p" by simp
  moreover from assms(1) have "size p \<le> size_list size ps"
    by (simp add: size_list_estimation')
  ultimately show False by simp
qed

lemma walk_names:
  assumes cons: "\<forall>u\<in>U. \<forall>v\<in>U. task_name u = task_name v \<longrightarrow> u = v"
  shows "set (subtasks t) \<subseteq> U \<Longrightarrow> set seen \<subseteq> U \<Longrightarrow>
     (\<forall>u\<in>set seen. set (postorder u) \<subseteq> task_name ` set seen) \<Longrightarrow>
     map task_name (walk t seen) = first_occurrences (map task_name seen) (postorder t)
     \<and> set (walk t seen) \<subseteq> U
     \<and> (\<forall>u\<in>set (walk t seen). set (postorder u) \<subseteq> task_name ` set (walk t seen))"
proof (induction t seen rule: walk.induct)
  case (1 n ps b seen)
  let ?t = "Task n ps b"
  have tU: "?t \<in> U"
    using "1.prems"(1) by simp
  show ?case
  proof (cases "n \<in> task_name ` set seen")
    case True
    then obtain u where u: "u \<in> set seen" "task_name u = n"
      by auto
    with "1.prems"(2) tU cons have ut: "u = ?t"
      by (metis subsetD task.sel(1))
    from "1.prems"(3) u(1) have "set (postorder u) \<subseteq> task_name ` set seen"
      by blast
    then have "set (postorder ?t) \<subseteq> set (map task_name seen)"
      unfolding ut by (simp only: set_map)
    then have "first_occurrences (map task_name seen) (postorder ?t) = map task_name seen"
      by (rule fo_absorb)
    with True "1.prems" show ?thesis
      by simp
  next
    case False
    have step: "map task_name (fold (\<lambda>p acc. walk p acc) qs acc)
                  = first_occurrences (map task_name acc) (concat (map postorder qs))
              \<and> set (fold (\<lambda>p acc. walk p acc) qs acc) \<subseteq> U
              \<and> (\<forall>u\<in>set (fold (\<lambda>p acc. walk p acc) qs acc).
                    set (postorder u) \<subseteq> task_name ` set (fold (\<lambda>p acc. walk p acc) qs acc))"
      if "set qs \<subseteq> set ps" "set acc \<subseteq> U" "\<forall>u\<in>set acc. set (postorder u) \<subseteq> task_name ` set acc"
      for qs acc
      using that
    proof (induction qs arbitrary: acc)
      case Nil
      then show ?case by simp
    next
      case (Cons q qs)
      from Cons.prems(1) have q: "q \<in> set ps" and qs: "set qs \<subseteq> set ps"
        by simp_all
      have "set (subtasks q) \<subseteq> U"
        using subtasks_pre[of q ?t] q "1.prems"(1) by auto
      from "1.IH"[OF False q this Cons.prems(2) Cons.prems(3)]
      have w: "map task_name (walk q acc) = first_occurrences (map task_name acc) (postorder q)"
        "set (walk q acc) \<subseteq> U"
        "\<forall>u\<in>set (walk q acc). set (postorder u) \<subseteq> task_name ` set (walk q acc)"
        by simp_all
      from Cons.IH[OF qs w(2) w(3)] w(1) show ?case
        by (simp add: fo_append)
    qed
    let ?F = "fold (\<lambda>p acc. walk p acc) ps seen"
    from step[OF subset_refl "1.prems"(2) "1.prems"(3)]
    have F: "map task_name ?F = first_occurrences (map task_name seen) (concat (map postorder ps))"
      "set ?F \<subseteq> U" "\<forall>u\<in>set ?F. set (postorder u) \<subseteq> task_name ` set ?F"
      by simp_all
    have nF: "n \<notin> set (map task_name ?F)"
    proof
      assume "n \<in> set (map task_name ?F)"
      with False have "n \<in> set (concat (map postorder ps))"
        by (auto simp: F(1) fo_set)
      then obtain p u where pu: "p \<in> set ps" "u \<in> set (subtasks p)" "task_name u = n"
        by (auto simp: postorder_names)
      have "u \<in> U"
        using subtasks_pre[of p ?t] pu(1,2) "1.prems"(1) by auto
      with tU cons pu(3) have "u = ?t"
        by (metis task.sel(1))
      with proper_subtask_neq[OF pu(1,2), of n b] show False
        by blast
    qed
    have w: "walk ?t seen = ?F @ [?t]"
      using False by simp
    have a: "map task_name (walk ?t seen) = first_occurrences (map task_name seen) (postorder ?t)"
      unfolding w using nF by (simp add: fo_append F(1)[symmetric])
    have b: "set (walk ?t seen) \<subseteq> U"
      unfolding w using F(2) tU by simp
    have "set (postorder ?t) \<subseteq> task_name ` set (walk ?t seen)"
      unfolding w using arg_cong[OF F(1), of set] by (auto simp: fo_set)
    with F(3) have c: "\<forall>u\<in>set (walk ?t seen). set (postorder u) \<subseteq> task_name ` set (walk ?t seen)"
      unfolding w by auto
    from a b c show ?thesis
      by blast
  qed
qed

lemma closure_walk: "prerequisite_closure t @ [t] = walk t []"
  by (cases t) (simp add: prerequisite_closure_def)

lemma schedule_names:
  assumes "consistent t"
  shows "map task_name (prerequisite_closure t) @ [task_name t] = dedupe (postorder t)"
    and "set (prerequisite_closure t) \<subseteq> set (subtasks t)"
proof -
  from assms have cons: "\<forall>u\<in>set (subtasks t). \<forall>v\<in>set (subtasks t). task_name u = task_name v \<longrightarrow> u = v"
    by (simp add: consistent_def)
  from walk_names[OF cons, of t "[]"]
  have w: "map task_name (walk t []) = dedupe (postorder t)" "set (walk t []) \<subseteq> set (subtasks t)"
    by (simp_all add: dedupe_def)
  from w(1) show "map task_name (prerequisite_closure t) @ [task_name t] = dedupe (postorder t)"
    by (simp add: closure_walk[symmetric])
  from w(2) show "set (prerequisite_closure t) \<subseteq> set (subtasks t)"
    by (simp add: closure_walk[symmetric])
qed

lemma prereqs_first_append:
  "prereqs_first s (xs @ ys) = (prereqs_first s xs \<and> prereqs_first (s @ map task_name xs) ys)"
  by (induction xs arbitrary: s) simp_all

lemma fold_walk_mono:
  assumes "\<And>p acc. p \<in> set qs \<Longrightarrow> set acc \<subseteq> set (walk p acc)"
  shows "set acc \<subseteq> set (fold (\<lambda>p acc. walk p acc) qs acc)"
  using assms
proof (induction qs arbitrary: acc)
  case Nil
  show ?case by simp
next
  case (Cons q qs)
  have "set acc \<subseteq> set (walk q acc)"
    using Cons.prems[of q acc] by simp
  also have "\<dots> \<subseteq> set (fold (\<lambda>p acc. walk p acc) qs (walk q acc))"
    using Cons.IH[of "walk q acc"] Cons.prems by simp
  finally show ?case by simp
qed

lemma walk_mono: "set seen \<subseteq> set (walk t seen)"
proof (induction t seen rule: walk.induct)
  case (1 n ps b seen)
  show ?case
  proof (cases "n \<in> task_name ` set seen")
    case True
    then show ?thesis by simp
  next
    case False
    have "set seen \<subseteq> set (fold (\<lambda>p acc. walk p acc) ps seen)"
      by (rule fold_walk_mono) (rule "1.IH"[OF False])
    with False show ?thesis by auto
  qed
qed

lemma walk_contains: "task_name t \<in> task_name ` set (walk t seen)"
proof (cases t)
  case (Task n ps b)
  show ?thesis
  proof (cases "n \<in> task_name ` set seen")
    case True
    with Task show ?thesis by simp
  next
    case False
    with Task show ?thesis by simp
  qed
qed

lemma fold_walk_contains:
  "p \<in> set qs \<Longrightarrow> task_name p \<in> task_name ` set (fold (\<lambda>p acc. walk p acc) qs acc)"
proof (induction qs arbitrary: acc)
  case Nil
  then show ?case by simp
next
  case (Cons q qs)
  show ?case
  proof (cases "p = q")
    case True
    have "set (walk q acc) \<subseteq> set (fold (\<lambda>p acc. walk p acc) qs (walk q acc))"
      by (rule fold_walk_mono) (rule walk_mono)
    with walk_contains[of q acc] True show ?thesis by auto
  next
    case False
    with Cons.prems have "p \<in> set qs" by simp
    from Cons.IH[OF this, of "walk q acc"] show ?thesis by simp
  qed
qed

lemma walk_prereqs_first: "prereqs_first [] seen \<Longrightarrow> prereqs_first [] (walk t seen)"
proof (induction t seen rule: walk.induct)
  case (1 n ps b seen)
  show ?case
  proof (cases "n \<in> task_name ` set seen")
    case True
    with "1.prems" show ?thesis by simp
  next
    case False
    let ?F = "fold (\<lambda>p acc. walk p acc) ps seen"
    have step: "prereqs_first [] (fold (\<lambda>p acc. walk p acc) qs acc)"
      if "set qs \<subseteq> set ps" "prereqs_first [] acc" for qs acc
      using that
    proof (induction qs arbitrary: acc)
      case Nil
      then show ?case by simp
    next
      case (Cons q qs)
      from Cons.prems(1) have q: "q \<in> set ps" and qs: "set qs \<subseteq> set ps"
        by simp_all
      from "1.IH"[OF False q Cons.prems(2)] have "prereqs_first [] (walk q acc)" .
      from Cons.IH[OF qs this] show ?case by simp
    qed
    from step[OF subset_refl "1.prems"] have F: "prereqs_first [] ?F" .
    have "list_all (\<lambda>p. task_name p \<in> set (map task_name ?F)) ps"
      using fold_walk_contains[of _ ps seen] by (simp add: list_all_iff)
    with F False show ?thesis
      by (simp add: prereqs_first_append)
  qed
qed

lemma run_calls_trace:
  "run_calls calls s = (tr, r, s') \<Longrightarrow>
     tr = take (length tr) (map fst calls) \<and> (r = None \<longrightarrow> tr = map fst calls)"
proof (induction calls arbitrary: s tr r s')
  case Nil
  then show ?case by simp
next
  case (Cons c calls)
  obtain n a where c: "c = (n, a)" by (cases c)
  obtain r1 s1 where a: "a s = (r1, s1)" by (cases "a s")
  show ?case
  proof (cases r1)
    case (Some e)
    with Cons.prems c a show ?thesis by auto
  next
    case None
    obtain tr2 r2 s2 where rc: "run_calls calls s1 = (tr2, r2, s2)"
      by (cases "run_calls calls s1")
    from Cons.IH[OF rc] have "tr2 = take (length tr2) (map fst calls)" "r2 = None \<longrightarrow> tr2 = map fst calls"
      by simp_all
    moreover from Cons.prems c a None rc have "tr = n # tr2" "r = r2"
      by simp_all
    ultimately show ?thesis
      using c by simp
  qed
qed

lemma run_calls_fail:
  "run_calls xs s = (tr, None, s1) \<Longrightarrow> a s1 = (Some e, s2) \<Longrightarrow>
     run_calls (xs @ (n, a) # ys) s = (map fst xs @ [n], Some e, s2)"
proof (induction xs arbitrary: s tr)
  case Nil
  then show ?case by simp
next
  case (Cons c xs)
  obtain m b where c: "c = (m, b)" by (cases c)
  obtain r0 s0 where b: "b s = (r0, s0)" by (cases "b s")
  show ?case
  proof (cases r0)
    case (Some e0)
    with Cons.prems(1) c b show ?thesis by simp
  next
    case None
    obtain tr2 r2 s2' where rc: "run_calls xs s0 = (tr2, r2, s2')"
      by (cases "run_calls xs s0")
    with Cons.prems(1) c b None have "r2 = None" "s2' = s1"
      by simp_all
    with rc Cons.IH[OF _ Cons.prems(2), of s0 tr2] have "run_calls (xs @ (n, a) # ys) s0 = (map fst xs @ [n], Some e, s2)"
      by simp
    with c b None show ?thesis by simp
  qed
qed

lemma schedule_facts:
  assumes "consistent t"
  shows "map task_name (prerequisite_closure t) @ [task_name t] = dedupe (postorder t)"
    and "distinct (map task_name (prerequisite_closure t) @ [task_name t])"
    and "set (dedupe (postorder t)) = task_name ` set (subtasks t)"
    and "prereqs_first [] (prerequisite_closure t @ [t])"
    and "set (prerequisite_closure t) \<subseteq> set (subtasks t)"
proof -
  show a: "map task_name (prerequisite_closure t) @ [task_name t] = dedupe (postorder t)"
    by (rule schedule_names(1)[OF assms])
  have "distinct (dedupe (postorder t))"
    unfolding dedupe_def by (rule fo_distinct) simp
  then show "distinct (map task_name (prerequisite_closure t) @ [task_name t])"
    by (simp only: a)
  show "set (dedupe (postorder t)) = task_name ` set (subtasks t)"
    by (simp add: dedupe_def fo_set postorder_names)
  show "prereqs_first [] (prerequisite_closure t @ [t])"
    unfolding closure_walk by (rule walk_prereqs_first) simp
  show "set (prerequisite_closure t) \<subseteq> set (subtasks t)"
    by (rule schedule_names(2)[OF assms])
qed

lemma diamond_consistent: "consistent (diamond bad)"
  by (simp add: consistent_def diamond_def)

subsection \<open>The namespace\<close>

lemma qualify_inj: "qualify prefix n = qualify prefix m \<Longrightarrow> n = m"
  by (simp add: qualify_def)

lemma merge_appends:
  "distinct (map fst sub) \<Longrightarrow> (\<forall>n \<in> fst ` set sub. qualify prefix n \<notin> fst ` set reg) \<Longrightarrow>
     merge prefix sub reg = Inr (reg @ map (\<lambda>e. (qualify prefix (fst e), snd e)) sub)"
proof (induction sub arbitrary: reg)
  case Nil
  show ?case by simp
next
  case (Cons e sub)
  obtain n t where e: "e = (n, t)" by (cases e)
  from Cons.prems(2) e have fresh: "qualify prefix n \<notin> fst ` set reg"
    by simp
  have d: "distinct (map fst sub)"
    using Cons.prems(1) by simp
  have "\<forall>m \<in> fst ` set sub. qualify prefix m \<notin> fst ` set (reg @ [(qualify prefix n, t)])"
  proof
    fix m
    assume m: "m \<in> fst ` set sub"
    with Cons.prems(1) e have "m \<noteq> n" by auto
    then have "qualify prefix m \<noteq> qualify prefix n"
      using qualify_inj by blast
    moreover from m Cons.prems(2) have "qualify prefix m \<notin> fst ` set reg"
      by auto
    ultimately show "qualify prefix m \<notin> fst ` set (reg @ [(qualify prefix n, t)])"
      by simp
  qed
  from Cons.IH[OF d this] fresh e show ?case
    by simp
qed

lemma map_of_qualified:
  "map_of (map (\<lambda>e. (qualify prefix (fst e), snd e)) sub) (qualify prefix n) = map_of sub n"
proof (induction sub)
  case Nil
  show ?case by simp
next
  case (Cons e sub)
  then show ?case
    using qualify_inj[of prefix "fst e" n] by auto
qed

lemma lookup_merged:
  assumes "qualify prefix n \<notin> fst ` set reg"
  shows "lookup (reg @ map (\<lambda>e. (qualify prefix (fst e), snd e)) sub) (qualify prefix n)
           = (case map_of sub n of None \<Rightarrow> Inl (UnknownTask (qualify prefix n)) | Some t \<Rightarrow> Inr t)"
proof -
  from assms have "map_of reg (qualify prefix n) = None"
    by (simp add: map_of_eq_None_iff)
  then show ?thesis
    by (simp add: lookup_def map_add_def map_of_qualified split: option.splits)
qed

lemma lookup_kept:
  assumes "map_of reg q = Some t"
  shows "lookup (reg @ rest) q = Inr t"
  using assms by (simp add: lookup_def map_add_def split: option.splits)

lemma test_prefix_fresh: "qualify ''test'' n \<notin> fst ` set (top_level tool repo_dir)"
  by (simp add: qualify_def top_level_def)

lemma ns_result:
  assumes "distinct (map fst test_tasks)"
  shows "ns tool repo_dir test_tasks =
     Inr (top_level tool repo_dir @ map (\<lambda>e. (qualify ''test'' (fst e), snd e)) test_tasks)"
proof -
  have "ns tool repo_dir test_tasks = merge ''test'' test_tasks (top_level tool repo_dir)"
    by (simp add: ns_def and_then_def register_def top_level_def build_task_def clean_task_def
          pack_task_def publish_task_def restore_local_task_def run_example_task_def)
  also have "\<dots> = Inr (top_level tool repo_dir @ map (\<lambda>e. (qualify ''test'' (fst e), snd e)) test_tasks)"
    by (rule merge_appends[OF assms]) (simp add: test_prefix_fresh)
  finally show ?thesis .
qed


subsection \<open>Invoking \<open>publish\<close>\<close>

lemma seq_only_files:
  assumes "\<And>s0. \<exists>fs. snd (a s0) = s0\<lparr>files := fs\<rparr>"
    and "\<And>s0. \<exists>fs. snd (b s0) = s0\<lparr>files := fs\<rparr>"
  shows "\<exists>fs. snd (seq a b s) = s\<lparr>files := fs\<rparr>"
proof (cases "a s")
  case (Pair r s1)
  from assms(1)[of s] Pair obtain fs1 where s1: "s1 = s\<lparr>files := fs1\<rparr>"
    by auto
  show ?thesis
  proof (cases r)
    case (Some e)
    with Pair s1 show ?thesis
      by (auto simp: seq_def)
  next
    case None
    from assms(2)[of s1] obtain fs2 where "snd (b s1) = s1\<lparr>files := fs2\<rparr>"
      by auto
    with None Pair s1 show ?thesis
      by (auto simp: seq_def)
  qed
qed

lemma for_each_only_files:
  assumes "\<And>x s0. \<exists>fs. snd (f x s0) = s0\<lparr>files := fs\<rparr>"
  shows "\<exists>fs. snd (for_each xs f s) = s\<lparr>files := fs\<rparr>"
proof (induction xs arbitrary: s)
  case Nil
  have "s = s\<lparr>files := files s\<rparr>" by simp
  then show ?case by (metis for_each.simps(1) snd_conv)
next
  case (Cons x xs)
  obtain r s1 where p: "f x s = (r, s1)" by (cases "f x s")
  from assms[of x s] p obtain fs1 where s1: "s1 = s\<lparr>files := fs1\<rparr>"
    by auto
  show ?case
  proof (cases r)
    case (Some e)
    with p s1 show ?thesis by auto
  next
    case None
    from Cons.IH[of s1] obtain fs2 where "snd (for_each xs f s1) = s1\<lparr>files := fs2\<rparr>"
      by auto
    with None p s1 show ?thesis by auto
  qed
qed

lemma rmtree_only_files: "\<exists>fs. snd (rmtree p ie s) = s\<lparr>files := fs\<rparr>"
  by (cases "rmtree_fs ie p (files s)") (auto simp: rmtree_def)

lemma skip_only_files: "\<exists>fs. snd (skip s) = s\<lparr>files := fs\<rparr>"
proof -
  have "s = s\<lparr>files := files s\<rparr>" by simp
  then show ?thesis by (metis skip_def snd_conv)
qed

lemma clean_only_files: "\<exists>fs. snd (clean repo_dir s) = s\<lparr>files := fs\<rparr>"
  unfolding clean_def Let_def
  by (intro seq_only_files for_each_only_files) (auto simp: rmtree_only_files skip_only_files)

lemma pack_frame:
  "environ (snd (pack tool repo_dir cfg s)) = environ s
   \<and> (issued (snd (pack tool repo_dir cfg s)) = issued s
      \<or> issued (snd (pack tool repo_dir cfg s)) =
          issued s @ [\<lparr>cmd_line = ''dotnet pack -c '' @ cfg @ '' -o ..'' @ [CHR 0x5C] @ ''..'' @ [CHR 0x5C] @ ''artifacts'',
                       cmd_cwd = str_path (repo_dir @ [''src'', ''TestRift.NUnit'']), cmd_env = []\<rparr>])"
proof (cases "mkdir_node True (repo_dir @ [''artifacts'']) (repo_dir @ [''artifacts'']) (files s)")
  case (Inl e)
  then show ?thesis
    by (simp add: pack_def Let_def seq_def mkdir_def)
next
  case (Inr fs1)
  then have "snd (pack tool repo_dir cfg s) =
      snd (cd (str_path (repo_dir @ [''src'', ''TestRift.NUnit'']))
            (run tool (''dotnet pack -c '' @ cfg @ '' -o ..'' @ [CHR 0x5C] @ ''..'' @ [CHR 0x5C] @ ''artifacts'') [])
            (s\<lparr>files := fs1\<rparr>))"
    by (simp add: pack_def Let_def seq_def mkdir_def)
  then show ?thesis
    by (simp add: cd_run_issued) (simp add: cd_def run_def Let_def split: prod.splits)
qed

lemma closure_publish:
  "prerequisite_closure (publish_task tool repo_dir) = [clean_task repo_dir, pack_task tool repo_dir]"
  by (simp add: prerequisite_closure_def publish_task_def pack_task_def clean_task_def)

lemma publish_consistent: "consistent (publish_task tool repo_dir)"
  by (simp add: consistent_def publish_task_def pack_task_def clean_task_def)

lemma clean_empty_fs: "clean [''repo''] (state_of empty_fs) = (None, state_of empty_fs)"
  by (simp add: clean_def state_of_def empty_fs_def seq_def rglob_def skip_def path_exists_def)

text \<open>
  An invocation of the task \<open>publish\<close> without a credential: the prerequisites
  \<open>clean\<close> and \<open>pack\<close> run first, so the invocation fails with the failure of \<open>pack\<close>
  when \<open>pack\<close> fails, and with the missing-credential error once \<open>pack\<close> has
  completed.  The only command it can issue is the pack command.
\<close>

lemma publish_invocation_without_credential:
  assumes "args ''api_key'' = None"
    and "getenv s ''NUGET_API_KEY'' = None"
    and "resolve_and_run (publish_task tool repo_dir) args s = (trace, r, s')"
  shows "r \<noteq> None
       \<and> (trace = [''clean'', ''pack'', ''publish''] \<longrightarrow> r = Some MissingCredential)
       \<and> (issued s' = issued s
          \<or> issued s' = issued s @
               [\<lparr>cmd_line = ''dotnet pack -c Release -o ..'' @ [CHR 0x5C] @ ''..'' @ [CHR 0x5C] @ ''artifacts'',
                 cmd_cwd = str_path (repo_dir @ [''src'', ''TestRift.NUnit'']), cmd_env = []\<rparr>])"
proof -
  obtain s1 where c: "clean repo_dir s = (None, s1)"
    using clean_never_fails[of repo_dir s] by (cases "clean repo_dir s") simp
  from clean_only_files[of repo_dir s] c obtain fs1 where s1: "s1 = s\<lparr>files := fs1\<rparr>"
    by auto
  obtain r2 s2 where p: "pack tool repo_dir ''Release'' s1 = (r2, s2)"
    by (cases "pack tool repo_dir ''Release'' s1")
  from pack_frame[of tool repo_dir "''Release''" s1] p s1
  have e2: "environ s2 = environ s"
    and i2: "issued s2 = issued s \<or> issued s2 = issued s @
               [\<lparr>cmd_line = ''dotnet pack -c Release -o ..'' @ [CHR 0x5C] @ ''..'' @ [CHR 0x5C] @ ''artifacts'',
                 cmd_cwd = str_path (repo_dir @ [''src'', ''TestRift.NUnit'']), cmd_env = []\<rparr>]"
    by simp_all
  have calls: "resolve_and_run (publish_task tool repo_dir) args s =
      run_calls [(''clean'', clean repo_dir), (''pack'', pack tool repo_dir ''Release''),
                 (''publish'', publish tool repo_dir (arg_or args ''source'' ''https://api.nuget.org/v3/index.json'') None)] s"
    unfolding resolve_and_run_def closure_publish
    by (simp add: prereq_call_def clean_task_def pack_task_def publish_task_def assms(1)
          arg_or_def no_args_def del: run_calls.simps)
  show ?thesis
  proof (cases r2)
    case (Some e)
    with assms(3) c p have "trace = [''clean'', ''pack'']" "r = Some e" "s' = s2"
      by (simp_all add: calls)
    with i2 show ?thesis by simp
  next
    case None
    have "getenv s2 ''NUGET_API_KEY'' = None"
      using assms(2) e2 by (simp add: getenv_def)
    then have "publish tool repo_dir (arg_or args ''source'' ''https://api.nuget.org/v3/index.json'') None s2
                 = (Some MissingCredential, s2)"
      by (simp add: publish_def raise_def)
    with assms(3) c p None have "r = Some MissingCredential" "s' = s2"
      by (simp_all add: calls)
    with i2 show ?thesis by simp
  qed
qed

section \<open>The claims\<close>

text \<open>
  C4.  When \<open>publish\<close> is called with no explicit \<open>api_key\<close> and the environment has no
  \<open>NUGET_API_KEY\<close>, it fails with the missing-credential error and leaves the state as
  it found it: in particular it issues no command at all, hence no push command.
\<close>

theorem publish_missing_credential:
  assumes "getenv s ''NUGET_API_KEY'' = None"
  shows "publish tool repo_dir source None s = (Some MissingCredential, s)
       \<and> issued (snd (publish tool repo_dir source None s)) = issued s"
  using assms by (simp add: publish_def raise_def)

theorem publish_missing_credential_witness:
  "publish tool_ok [''repo''] ''https://api.nuget.org/v3/index.json'' None (state_of empty_fs)
     = (Some MissingCredential, state_of empty_fs)
   \<and> issued (snd (publish tool_ok [''repo''] ''https://api.nuget.org/v3/index.json'' None
        (state_of empty_fs))) = []"
  using publish_missing_credential [of "state_of empty_fs" tool_ok "[''repo'']"
      "''https://api.nuget.org/v3/index.json''"]
  by (simp add: getenv_def state_of_def)

text \<open>
  C9.  When the local \<open>TestRift.Server\<close> package directory does not exist,
  \<open>restore_local\<close> returns normally: it raises nothing, prints the two lines of its
  error message and issues no command.
\<close>

theorem restore_local_missing_package:
  assumes "\<not> path_exists (files s)
             (path_parent repo_dir @ [''testrift-server'', ''nuget'', ''TestRift.Server'', ''bin'', ''Release''])"
  shows "restore_local tool repo_dir s =
       (None, s\<lparr>printed := printed s @
          [''ERROR: Local TestRift.Server package not found at: '' @
              str_path (path_parent repo_dir @
                 [''testrift-server'', ''nuget'', ''TestRift.Server'', ''bin'', ''Release'']),
           ''Run 'inv build-nuget' in testrift-server directory first.'']\<rparr>)
     \<and> issued (snd (restore_local tool repo_dir s)) = issued s"
  using assms by (simp add: restore_local_def seq_def print_def Let_def)

theorem restore_local_missing_package_witness:
  "fst (restore_local tool_fail [''repo''] (state_of empty_fs)) = None
   \<and> issued (snd (restore_local tool_fail [''repo''] (state_of empty_fs))) = []
   \<and> length (printed (snd (restore_local tool_fail [''repo''] (state_of empty_fs)))) = 2"
  using restore_local_missing_package [of "state_of empty_fs" "[''repo'']" tool_fail]
  by (simp add: path_exists_def path_parent_def state_of_def empty_fs_def)

text \<open>
  C7.  Directory scopes are a stack discipline.  A command run inside the scope \<open>A\<close>
  observes \<open>A\<close>; whatever the outcome of that command (the toolchain is arbitrary, so
  it may succeed or fail), the scope leaves the stack of working directories as it
  found it, and the next command, run outside the scope, observes the working
  directory that was current before the scope was entered: the ambient one when no
  scope is open.  The two consecutive scopes of \<open>build\<close> leave the stack unchanged on
  every exit path as well.
\<close>

theorem cd_scope_restores_cwd:
  "cwd_stack (snd (cd A (run tool line env) s)) = cwd_stack s
   \<and> issued (snd (run tool2 line2 env2 (snd (cd A (run tool line env) s)))) =
       issued s @ [\<lparr>cmd_line = line, cmd_cwd = A, cmd_env = env\<rparr>,
                   \<lparr>cmd_line = line2, cmd_cwd = current_cwd s, cmd_env = env2\<rparr>]
   \<and> (cwd_stack s = [] \<longrightarrow> current_cwd s = ambient_cwd s)
   \<and> cwd_stack (snd (build tool repo_dir s)) = cwd_stack s"
proof -
  let ?s1 = "snd (cd A (run tool line env) s)"
  have st: "cwd_stack ?s1 = cwd_stack s"
    by (rule cd_balanced) (rule run_cwd_stack)
  have "current_cwd ?s1 = current_cwd s"
    using st cd_run_ambient[of A tool line env s]
    by (simp add: current_cwd_def split: list.splits)
  then have "issued (snd (run tool2 line2 env2 ?s1)) =
       issued s @ [\<lparr>cmd_line = line, cmd_cwd = A, cmd_env = env\<rparr>,
                   \<lparr>cmd_line = line2, cmd_cwd = current_cwd s, cmd_env = env2\<rparr>]"
    by (simp add: run_issued cd_run_issued)
  with st build_balanced show ?thesis
    by (simp add: current_cwd_def)
qed

theorem cd_scope_restores_cwd_witness:
  "fst (cd ''/repo/src'' (run tool_fail ''dotnet build'' []) (state_of empty_fs))
     = Some (CommandFailed ''dotnet build'' 1)
   \<and> cwd_stack (snd (cd ''/repo/src'' (run tool_fail ''dotnet build'' []) (state_of empty_fs))) = []
   \<and> map cmd_cwd (issued (snd (run tool_ok ''dotnet restore'' []
        (snd (cd ''/repo/src'' (run tool_fail ''dotnet build'' []) (state_of empty_fs))))))
     = [''/repo/src'', ''/home/user'']"
  using cd_scope_restores_cwd [where A="''/repo/src''" and tool=tool_fail
      and line="''dotnet build''" and env="[]" and s="state_of empty_fs" and ?tool2.0=tool_ok
      and ?line2.0="''dotnet restore''" and ?env2.0="[]" and repo_dir="[''repo'']"]
  by (simp add: state_of_def cd_def run_def tool_fail_def current_cwd_def Let_def)

text \<open>
  C8, as the specification states it, fails: called with the empty string as its filter
  argument, \<open>run_example\<close> issues a command line without a \<open>--filter\<close> clause, although
  a filter argument was supplied.
\<close>

theorem run_example_empty_filter_counterexample:
  "\<not> (contains (cmd_line (last (issued (snd (run_example tool_ok [''repo''] (Some [])
            ''http://localhost:8080'' (state_of empty_fs)))))) ''--filter''
       \<longleftrightarrow> Some [] \<noteq> (None :: string option))"
proof -
  have "cmd_line (last (issued (snd (run_example tool_ok [''repo''] (Some [])
            ''http://localhost:8080'' (state_of empty_fs)))))
        = ''dotnet test --logger console;verbosity=normal''"
    by (simp add: run_example_def Let_def seq_def print_def cd_run_issued)
  then show ?thesis
    using base_command_no_filter by simp
qed

text \<open>
  C8, amended.  Every call of \<open>run_example\<close> issues exactly one command, in the
  \<open>Example\<close> directory.  Its environment overlay is exactly the two variables
  \<open>TEST_LOG_SERVER_URL\<close>, bound to the server URL, and \<open>TEST_DUT_NAME\<close>, bound to
  \<open>INVOKE-TEST\<close>.  The overlay is local to that command: the ambient environment is
  unchanged and a later command carries only its own overlay.  The command line
  contains a \<open>--filter\<close> clause if and only if a non-empty filter argument was given.
\<close>

theorem run_example_command:
  "\<exists>line. issued (snd (run_example tool repo_dir flt server_url s)) =
       issued s @ [\<lparr>cmd_line = line, cmd_cwd = str_path (repo_dir @ [''Example'']),
          cmd_env = [(''TEST_LOG_SERVER_URL'', server_url), (''TEST_DUT_NAME'', ''INVOKE-TEST'')]\<rparr>]
     \<and> (contains line ''--filter'' \<longleftrightarrow> truthy flt)
     \<and> environ (snd (run_example tool repo_dir flt server_url s)) = environ s
     \<and> cmd_env (last (issued (snd (run tool2 line2 [] (snd (run_example tool repo_dir flt server_url s))))))
         = []"
proof -
  define line where "line =
     (case flt of None \<Rightarrow> ''dotnet test --logger console;verbosity=normal''
      | Some f \<Rightarrow> if f = [] then ''dotnet test --logger console;verbosity=normal''
                  else ''dotnet test --logger console;verbosity=normal'' @ '' --filter '' @ f)"
  have c: "contains line ''--filter'' \<longleftrightarrow> truthy flt"
  proof (cases flt)
    case None
    then show ?thesis
      using base_command_no_filter by (simp add: line_def)
  next
    case (Some f)
    have "contains ((''dotnet test --logger console;verbosity=normal'' @ '' '') @ ''--filter'' @ ('' '' @ f))
            ''--filter''"
      by (rule contains_append)
    with Some show ?thesis
      using base_command_no_filter by (simp add: line_def)
  qed
  have i: "issued (snd (run_example tool repo_dir flt server_url s)) =
       issued s @ [\<lparr>cmd_line = line, cmd_cwd = str_path (repo_dir @ [''Example'']),
          cmd_env = [(''TEST_LOG_SERVER_URL'', server_url), (''TEST_DUT_NAME'', ''INVOKE-TEST'')]\<rparr>]"
    unfolding run_example_def Let_def line_def
    by (simp add: seq_def print_def cd_run_issued)
  have e: "environ (snd (run_example tool repo_dir flt server_url s)) = environ s"
    unfolding run_example_def Let_def
    by (simp add: seq_def print_def cd_def run_def Let_def split: prod.splits)
  have l: "cmd_env (last (issued (snd (run tool2 line2 [] (snd (run_example tool repo_dir flt server_url s))))))
         = []"
    by (simp add: run_issued)
  from c i e l show ?thesis
    by blast
qed

theorem run_example_command_witness:
  "issued (snd (run_example tool_ok [''repo''] (Some ''Smoke'') ''http://localhost:8080'' (state_of empty_fs)))
     = [\<lparr>cmd_line = ''dotnet test --logger console;verbosity=normal --filter Smoke'',
         cmd_cwd = ''/repo/Example'',
         cmd_env = [(''TEST_LOG_SERVER_URL'', ''http://localhost:8080''), (''TEST_DUT_NAME'', ''INVOKE-TEST'')]\<rparr>]
   \<and> truthy (Some ''Smoke'')"
  using run_example_command [of tool_ok "[''repo'']" "Some ''Smoke''" "''http://localhost:8080''"
      "state_of empty_fs" tool_ok "''dotnet build''"]
  by (simp add: run_example_def Let_def seq_def print_def cd_run_issued state_of_def str_path_def)

text \<open>
  C5, as the specification states it, fails: with two packages in \<open>artifacts\<close> and
  a toolchain on which the push of the first one fails, \<open>publish\<close> issues the push
  command of the first package only; the second package gets none.
\<close>

theorem publish_stops_at_failing_push_counterexample:
  "listdir (files (state_of two_pkg_fs)) [''repo'', ''artifacts''] = [''A.nupkg'', ''B.nupkg'']
   \<and> map cmd_line (issued (snd (publish (tool_fail_on ''A.nupkg'') [''repo''] ''https://feed'' (Some ''KEY'')
         (state_of two_pkg_fs))))
     = [''dotnet nuget push \"/repo/artifacts/A.nupkg\" --api-key \"KEY\" --source \"https://feed\" --skip-duplicate'']"
proof -
  have p: "filter (\<lambda>n. endswith n ''.nupkg'') (listdir (files (state_of two_pkg_fs)) [''repo'', ''artifacts''])
     = [''A.nupkg'', ''B.nupkg'']"
    by (simp add: listdir_def state_of_def two_pkg_fs_def endswith_def)
  have "contains (''dotnet nuget push \"/repo/artifacts/'' @ ''A.nupkg''
                   @ ''\" --api-key \"KEY\" --source \"https://feed\" --skip-duplicate'') ''A.nupkg''"
    by (rule contains_append)
  then have c: "contains ''dotnet nuget push \"/repo/artifacts/A.nupkg\" --api-key \"KEY\" --source \"https://feed\" --skip-duplicate'' ''A.nupkg''"
    by (simp del: contains.simps)
  have l: "push_command [''repo'', ''artifacts'', ''A.nupkg''] ''KEY'' ''https://feed''
     = ''dotnet nuget push \"/repo/artifacts/A.nupkg\" --api-key \"KEY\" --source \"https://feed\" --skip-duplicate''"
    by (simp add: push_command_def str_path_def)
  have g: "glob_star (files (state_of two_pkg_fs)) ([''repo''] @ [''artifacts'']) ''.nupkg''
     = [[''repo'', ''artifacts'', ''A.nupkg''], [''repo'', ''artifacts'', ''B.nupkg'']]"
    using p by (simp add: glob_star_def)
  have e: "\<not> endswith ''A.nupkg'' ''.snupkg''"
    by (simp add: endswith_def)
  have "map cmd_line (issued (snd (publish (tool_fail_on ''A.nupkg'') [''repo''] ''https://feed'' (Some ''KEY'')
         (state_of two_pkg_fs))))
     = [''dotnet nuget push \"/repo/artifacts/A.nupkg\" --api-key \"KEY\" --source \"https://feed\" --skip-duplicate'']"
    unfolding publish_def Let_def g
    by (simp add: path_name_def e l run_def tool_fail_on_def c state_of_def del: contains.simps)
  moreover have "listdir (files (state_of two_pkg_fs)) [''repo'', ''artifacts''] = [''A.nupkg'', ''B.nupkg'']"
    by (simp add: listdir_def state_of_def two_pkg_fs_def)
  ultimately show ?thesis
    by simp
qed

text \<open>
  C5, amended.  Given a non-empty API key (explicit, or from \<open>NUGET_API_KEY\<close>),
  \<open>publish\<close> hands the toolchain the push commands of the files of \<open>artifacts\<close> whose
  name ends with \<open>.nupkg\<close>, one per file, in listing order, each with the command line
  \<open>dotnet nuget push "<file>" --api-key "<key>" --source "<source>" --skip-duplicate\<close>,
  in the working directory current at the call and with no environment overlay, up to
  and including the first push that exits with a non-zero status.  It then fails with
  the \<open>CommandFailed\<close> of that push, and the packages after it get no push.  When
  every push succeeds it completes, and exactly one push per such file has been issued.
  No push command is issued for a file whose name ends with \<open>.snupkg\<close>.  Nothing
  but the filesystem the toolchain leaves and the log of issued commands changes.
\<close>

theorem publish_pushes_each_package:
  fixes tool :: toolchain and repo_dir :: path and source key :: string and s :: state
  defines "pkgs \<equiv> filter (\<lambda>n. endswith n ''.nupkg'') (listdir (files s) (repo_dir @ [''artifacts'']))"
    and "push \<equiv> (\<lambda>n. \<lparr>cmd_line = ''dotnet nuget push \"'' @ str_path (repo_dir @ [''artifacts'', n])
                                 @ ''\" --api-key \"'' @ key @ ''\" --source \"'' @ source
                                 @ ''\" --skip-duplicate'',
                      cmd_cwd = current_cwd s, cmd_env = []\<rparr>)"
  assumes "(case api_key of None \<Rightarrow> getenv s ''NUGET_API_KEY'' | Some k \<Rightarrow> Some k) = Some key"
    and "key \<noteq> []"
    and "run_until_failure tool (map push pkgs) (files s) = (launched, r, fs')"
  shows "publish tool repo_dir source api_key s = (r, s\<lparr>files := fs', issued := issued s @ launched\<rparr>)
       \<and> launched = take (length launched) (map push pkgs)
       \<and> (r = None \<longrightarrow> launched = map push pkgs)
       \<and> (\<forall>e. r = Some e \<longrightarrow>
             launched \<noteq> [] \<and> (\<exists>st. st \<noteq> 0 \<and> e = CommandFailed (cmd_line (last launched)) st))
       \<and> ((\<forall>cmd fs. fst (tool cmd fs) = 0) \<longrightarrow> r = None)
       \<and> (\<forall>n. endswith n ''.snupkg'' \<longrightarrow> push n \<notin> set launched)"
proof -
  let ?A = "repo_dir @ [''artifacts'']"
  let ?f = "\<lambda>pkg. if endswith (path_name pkg) ''.snupkg'' then skip
                  else run tool (push_command pkg key source) []"
  let ?mk = "\<lambda>d pkg. \<lparr>cmd_line = push_command pkg key source, cmd_cwd = d, cmd_env = []\<rparr>"
  have g: "glob_star (files s) ?A ''.nupkg'' = map (\<lambda>n. ?A @ [n]) pkgs"
    by (simp add: glob_star_def pkgs_def)
  have m: "map (?mk (current_cwd s)) (map (\<lambda>n. ?A @ [n]) pkgs) = map push pkgs"
    by (simp add: push_def push_command_def)
  have step: "?f x s0 = run tool (cmd_line (?mk (current_cwd s0) x)) [] s0"
    if "x \<in> set (map (\<lambda>n. ?A @ [n]) pkgs)" for x s0
  proof -
    from that obtain n where n: "x = ?A @ [n]" "endswith n ''.nupkg''"
      by (auto simp: pkgs_def)
    then have "\<not> endswith (path_name x) ''.snupkg''"
      by (simp add: path_name_def nupkg_not_snupkg)
    then show ?thesis by simp
  qed
  have "publish tool repo_dir source api_key s = for_each (map (\<lambda>n. ?A @ [n]) pkgs) ?f s"
    using publish_with_key[OF assms(3,4), of tool repo_dir source] by (simp only: g)
  also have "\<dots> = (case run_until_failure tool (map (?mk (current_cwd s)) (map (\<lambda>n. ?A @ [n]) pkgs)) (files s) of
        (launched, r, fs') \<Rightarrow> (r, s\<lparr>files := fs', issued := issued s @ launched\<rparr>))"
    by (rule for_each_run_until_failure) (rule step, assumption, simp)
  finally have a: "publish tool repo_dir source api_key s = (r, s\<lparr>files := fs', issued := issued s @ launched\<rparr>)"
    unfolding m assms(5) by simp
  note sh = run_until_failure_shape[OF assms(5)]
  have ok: "(\<forall>cmd fs. fst (tool cmd fs) = 0) \<longrightarrow> r = None"
  proof
    assume "\<forall>cmd fs. fst (tool cmd fs) = 0"
    then have "fst (snd (run_until_failure tool (map push pkgs) (files s))) = None"
      by (intro run_until_failure_succeeds) simp
    with assms(5) show "r = None" by simp
  qed
  have none: "push n \<notin> set launched" if sn: "endswith n ''.snupkg''" for n
  proof
    assume "push n \<in> set launched"
    with sh have "push n \<in> set (map push pkgs)"
      by (metis in_set_takeD)
    then obtain k where k: "endswith k ''.nupkg''" "push n = push k"
      by (auto simp: pkgs_def)
    from k(2) have "str_path (?A @ [n]) = str_path (?A @ [k])"
      by (simp add: push_def)
    then have "n = k" by (rule str_path_snoc_inj)
    with k(1) sn nupkg_not_snupkg show False by blast
  qed
  from a sh ok none show ?thesis by blast
qed

theorem publish_pushes_each_package_witness:
  "publish tool_ok [''repo''] ''https://feed'' (Some ''KEY'') (state_of pkg_fs)
     = (None, (state_of pkg_fs)\<lparr>issued :=
          [\<lparr>cmd_line = ''dotnet nuget push \"/repo/artifacts/Foo.1.0.0.nupkg\" --api-key \"KEY\" --source \"https://feed\" --skip-duplicate'',
            cmd_cwd = ''/home/user'', cmd_env = []\<rparr>]\<rparr>)"
proof -
  let ?s = "state_of pkg_fs"
  let ?push = "\<lambda>n. \<lparr>cmd_line = ''dotnet nuget push \"'' @ str_path ([''repo''] @ [''artifacts'', n])
                                 @ ''\" --api-key \"'' @ ''KEY'' @ ''\" --source \"'' @ ''https://feed''
                                 @ ''\" --skip-duplicate'',
                      cmd_cwd = current_cwd ?s, cmd_env = []\<rparr>"
  let ?pkgs = "filter (\<lambda>n. endswith n ''.nupkg'') (listdir (files ?s) ([''repo''] @ [''artifacts'']))"
  have k: "(case Some ''KEY'' of None \<Rightarrow> getenv ?s ''NUGET_API_KEY'' | Some k \<Rightarrow> Some k) = Some ''KEY''"
    by simp
  have p: "?pkgs = [''Foo.1.0.0.nupkg'']"
    by (simp add: listdir_def state_of_def pkg_fs_def endswith_def)
  have r: "run_until_failure tool_ok (map ?push ?pkgs) (files ?s)
         = ([?push ''Foo.1.0.0.nupkg''], None, pkg_fs)"
    unfolding p by (simp add: tool_ok_def state_of_def)
  have ne: "''KEY'' \<noteq> []"
    by simp
  from publish_pushes_each_package[OF k ne r]
  have "publish tool_ok [''repo''] ''https://feed'' (Some ''KEY'') ?s
          = (None, ?s\<lparr>files := pkg_fs, issued := issued ?s @ [?push ''Foo.1.0.0.nupkg'']\<rparr>)"
    by (rule conjunct1)
  then show ?thesis
    by (simp add: state_of_def str_path_def current_cwd_def)
qed






text \<open>
  C1.  Let names identify the tasks reachable from \<open>t\<close>.  The bodies an invocation of
  \<open>t\<close> schedules are the tasks of the prerequisite closure followed by \<open>t\<close> itself.
  Their order is the declared depth-first order with every task kept at its first
  occurrence only; every name of the closure is scheduled, exactly once, also when a
  prerequisite is reachable along several paths; every scheduled task comes after all
  of its own prerequisites, and \<open>t\<close> is last.  The bodies actually started are an
  initial segment of this schedule, and the whole of it when the invocation completes
  without failure.
\<close>

theorem resolver_runs_prerequisites_in_order:
  assumes "consistent t"
    and "resolve_and_run t args s = (trace, r, s')"
  shows "map task_name (prerequisite_closure t) @ [task_name t] = dedupe (postorder t)
       \<and> distinct (map task_name (prerequisite_closure t) @ [task_name t])
       \<and> set (dedupe (postorder t)) = task_name ` set (subtasks t)
       \<and> prereqs_first [] (prerequisite_closure t @ [t])
       \<and> set (prerequisite_closure t) \<subseteq> set (subtasks t)
       \<and> trace = take (length trace) (dedupe (postorder t))
       \<and> (r = None \<longrightarrow> trace = dedupe (postorder t))"
proof -
  note f = schedule_facts[OF assms(1)]
  have m: "map fst (map prereq_call (prerequisite_closure t) @ [(task_name t, body t args)])
             = dedupe (postorder t)"
    using f(1) by (simp add: prereq_call_def comp_def)
  from run_calls_trace[OF assms(2)[unfolded resolve_and_run_def]]
  have "trace = take (length trace) (dedupe (postorder t))" "r = None \<longrightarrow> trace = dedupe (postorder t)"
    unfolding m by simp_all
  with f show ?thesis
    by blast
qed

theorem resolver_runs_prerequisites_in_order_witness:
  "consistent (diamond [])
   \<and> resolve_and_run (diamond []) no_args [] = ([''c'', ''p1'', ''p2'', ''t''], None, [''c'', ''p1'', ''p2'', ''t''])
   \<and> dedupe (postorder (diamond [])) = [''c'', ''p1'', ''p2'', ''t'']
   \<and> postorder (diamond []) = [''c'', ''p1'', ''c'', ''p2'', ''t'']
   \<and> fst (resolve_and_run (publish_task tool_ok [''repo'']) key_args (state_of empty_fs))
       = [''clean'', ''pack'', ''publish'']
   \<and> fst (snd (resolve_and_run (publish_task tool_ok [''repo'']) key_args (state_of empty_fs))) = None"
proof -
  have r: "resolve_and_run (diamond []) no_args [] = ([''c'', ''p1'', ''p2'', ''t''], None, [''c'', ''p1'', ''p2'', ''t''])"
    by (simp add: resolve_and_run_def prerequisite_closure_def diamond_def prereq_call_def log_body_def)
  note T = resolver_runs_prerequisites_in_order[OF diamond_consistent r]
  from T have d: "[''c'', ''p1'', ''p2'', ''t''] = dedupe (postorder (diamond []))"
    by blast
  have p: "postorder (diamond []) = [''c'', ''p1'', ''c'', ''p2'', ''t'']"
    by (simp add: diamond_def)
  let ?R = "resolve_and_run (publish_task tool_ok [''repo'']) key_args (state_of empty_fs)"
  have ok: "fst (snd ?R) = None"
    unfolding resolve_and_run_def closure_publish
    by (simp add: prereq_call_def clean_task_def clean_empty_fs)
       (simp add: pack_task_def publish_task_def arg_or_def no_args_def key_args_def pack_def Let_def seq_def
          mkdir_def cd_def run_def tool_ok_def state_of_def empty_fs_def publish_def getenv_def glob_star_def
          listdir_def)
  have eq: "?R = (fst ?R, fst (snd ?R), snd (snd ?R))"
    by simp
  from resolver_runs_prerequisites_in_order[OF publish_consistent eq] ok
  have "fst ?R = dedupe (postorder (publish_task tool_ok [''repo'']))"
    by blast
  then have tr: "fst ?R = [''clean'', ''pack'', ''publish'']"
    by (simp add: publish_task_def pack_task_def clean_task_def dedupe_def)
  from diamond_consistent[of "[]"] r d[symmetric] p tr ok show ?thesis
    by (intro conjI)
qed

text \<open>
  C2.  Let names identify the tasks reachable from \<open>t\<close>, and let \<open>p\<close> be a task of the
  prerequisite closure of \<open>t\<close>.  If the prerequisites scheduled before \<open>p\<close> complete
  and the body of \<open>p\<close> then fails with \<open>e\<close>, the invocation of \<open>t\<close> stops there: the
  failure it surfaces is exactly \<open>e\<close>, the state is the one \<open>p\<close> left, and neither the
  body of \<open>t\<close> nor the body of any prerequisite scheduled after \<open>p\<close> is started.
\<close>

theorem prerequisite_failure_stops_invocation:
  assumes "consistent t"
    and "prerequisite_closure t = before @ p # after"
    and "run_calls (map prereq_call before) s = (tr, None, s1)"
    and "body p no_args s1 = (Some e, s2)"
  shows "resolve_and_run t args s = (map task_name before @ [task_name p], Some e, s2)
       \<and> task_name t \<notin> set (map task_name before @ [task_name p])
       \<and> (\<forall>u \<in> set after. task_name u \<notin> set (map task_name before @ [task_name p]))"
proof -
  have "resolve_and_run t args s =
      run_calls (map prereq_call before @ (task_name p, body p no_args) #
                 (map prereq_call after @ [(task_name t, body t args)])) s"
    by (simp add: resolve_and_run_def assms(2) prereq_call_def)
  also have "\<dots> = (map fst (map prereq_call before) @ [task_name p], Some e, s2)"
    by (rule run_calls_fail[where a="body p no_args", OF assms(3) assms(4)])
  finally have a: "resolve_and_run t args s = (map task_name before @ [task_name p], Some e, s2)"
    by (simp add: prereq_call_def comp_def)
  from schedule_facts(2)[OF assms(1)]
  have "distinct (map task_name before @ task_name p # map task_name after @ [task_name t])"
    by (simp add: assms(2))
  then have "task_name t \<notin> set (map task_name before @ [task_name p])"
    and "\<forall>u \<in> set after. task_name u \<notin> set (map task_name before @ [task_name p])"
    by (auto simp: image_iff disjoint_iff)
  with a show ?thesis
    by blast
qed

theorem prerequisite_failure_stops_invocation_witness:
  "resolve_and_run (diamond ''p1'') no_args [] = ([''c'', ''p1''], Some (RuntimeError ''p1''), [''c'', ''p1''])
   \<and> ''t'' \<notin> set [''c'', ''p1''] \<and> ''p2'' \<notin> set [''c'', ''p1'']
   \<and> fst (resolve_and_run (publish_task tool_fail [''repo'']) no_args (state_of empty_fs)) = [''clean'', ''pack'']
   \<and> fst (snd (resolve_and_run (publish_task tool_fail [''repo'']) no_args (state_of empty_fs)))
       = Some (CommandFailed (''dotnet pack -c Release -o ..'' @ [CHR 0x5C] @ ''..'' @ [CHR 0x5C] @ ''artifacts'') 1)"
proof -
  let ?c = "Task ''c'' [] (log_body ''p1'' ''c'')"
  let ?p1 = "Task ''p1'' [?c] (log_body ''p1'' ''p1'')"
  let ?p2 = "Task ''p2'' [?c] (log_body ''p1'' ''p2'')"
  have c: "prerequisite_closure (diamond ''p1'') = [?c] @ ?p1 # [?p2]"
    by (simp add: prerequisite_closure_def diamond_def)
  have b: "run_calls (map prereq_call [?c]) [] = ([''c''], None, [''c''])"
    by (simp add: prereq_call_def log_body_def)
  have f: "body ?p1 no_args [''c''] = (Some (RuntimeError ''p1''), [''c'', ''p1''])"
    by (simp add: log_body_def)
  note d = prerequisite_failure_stops_invocation[OF diamond_consistent c b f, of no_args]
  have c': "prerequisite_closure (publish_task tool_fail [''repo'']) = [clean_task [''repo'']] @ pack_task tool_fail [''repo''] # []"
    by (simp add: closure_publish)
  have b': "run_calls (map prereq_call [clean_task [''repo'']]) (state_of empty_fs) = ([''clean''], None, state_of empty_fs)"
    by (simp add: prereq_call_def clean_task_def clean_empty_fs)
  obtain s2 where f': "body (pack_task tool_fail [''repo'']) no_args (state_of empty_fs)
      = (Some (CommandFailed (''dotnet pack -c Release -o ..'' @ [CHR 0x5C] @ ''..'' @ [CHR 0x5C] @ ''artifacts'') 1), s2)"
    by (simp add: pack_task_def arg_or_def no_args_def pack_def Let_def seq_def mkdir_def cd_def run_def
          tool_fail_def state_of_def empty_fs_def)
  note p = prerequisite_failure_stops_invocation[OF publish_consistent c' b' f', of no_args]
  from d p show ?thesis
    by (simp add: clean_task_def pack_task_def)
qed

text \<open>
  C6.  Let the collection loaded from \<open>tests/tasks.py\<close> have unique names.  Building
  the namespace \<open>ns\<close> succeeds; every task of that collection is then addressable
  under its name qualified with \<open>test.\<close>, the lookup returns the task itself,
  prerequisites and body untouched, and invoking the qualified name resolves and runs
  exactly that task.  The six top-level names still denote the six tasks of
  \<open>tasks.py\<close>, untouched as well.
\<close>

theorem merged_test_tasks_are_addressable:
  assumes "distinct (map fst test_tasks)"
  shows "\<exists>reg. ns tool repo_dir test_tasks = Inr reg
     \<and> (\<forall>n t. map_of test_tasks n = Some t \<longrightarrow>
            lookup reg (''test.'' @ n) = Inr t
          \<and> invoke_task reg (''test.'' @ n) args s = resolve_and_run t args s)
     \<and> lookup reg ''build'' = Inr (build_task tool repo_dir)
     \<and> lookup reg ''clean'' = Inr (clean_task repo_dir)
     \<and> lookup reg ''pack'' = Inr (pack_task tool repo_dir)
     \<and> lookup reg ''publish'' = Inr (publish_task tool repo_dir)
     \<and> lookup reg ''restore_local'' = Inr (restore_local_task tool repo_dir)
     \<and> lookup reg ''run_example'' = Inr (run_example_task tool repo_dir)"
proof -
  let ?reg = "top_level tool repo_dir @ map (\<lambda>e. (qualify ''test'' (fst e), snd e)) test_tasks"
  have n: "ns tool repo_dir test_tasks = Inr ?reg"
    by (rule ns_result[OF assms])
  have q: "lookup ?reg (''test.'' @ n) = Inr t
          \<and> invoke_task ?reg (''test.'' @ n) args s = resolve_and_run t args s"
    if "map_of test_tasks n = Some t" for n t
  proof -
    have "lookup ?reg (qualify ''test'' n) = Inr t"
      using lookup_merged[OF test_prefix_fresh[of n tool repo_dir], of test_tasks] that by simp
    then have "lookup ?reg (''test.'' @ n) = Inr t"
      by (simp add: qualify_def)
    then show ?thesis
      by (simp add: invoke_task_def)
  qed
  have t: "lookup ?reg ''build'' = Inr (build_task tool repo_dir)"
    "lookup ?reg ''clean'' = Inr (clean_task repo_dir)"
    "lookup ?reg ''pack'' = Inr (pack_task tool repo_dir)"
    "lookup ?reg ''publish'' = Inr (publish_task tool repo_dir)"
    "lookup ?reg ''restore_local'' = Inr (restore_local_task tool repo_dir)"
    "lookup ?reg ''run_example'' = Inr (run_example_task tool repo_dir)"
    by (rule lookup_kept, simp add: top_level_def)+
  from q have q': "\<forall>n t. map_of test_tasks n = Some t \<longrightarrow>
            lookup ?reg (''test.'' @ n) = Inr t
          \<and> invoke_task ?reg (''test.'' @ n) args s = resolve_and_run t args s"
    by blast
  show ?thesis
    by (rule exI[of _ ?reg], intro conjI) (rule n, rule q', (rule t)+)
qed

theorem merged_test_tasks_are_addressable_witness:
  "ns tool_ok [''repo''] [(''unit'', unit_task)]
     = Inr (top_level tool_ok [''repo''] @ [(''test.unit'', unit_task)])
   \<and> lookup (top_level tool_ok [''repo''] @ [(''test.unit'', unit_task)]) ''test.unit'' = Inr unit_task
   \<and> invoke_task (top_level tool_ok [''repo''] @ [(''test.unit'', unit_task)]) ''test.unit'' no_args
         (state_of empty_fs)
       = ([''unit''], None, (state_of empty_fs)\<lparr>printed := [''running unit tests'']\<rparr>)
   \<and> lookup (top_level tool_ok [''repo''] @ [(''test.unit'', unit_task)]) ''unit''
       = Inl (UnknownTask ''unit'')"
proof -
  let ?reg = "top_level tool_ok [''repo''] @ [(''test.unit'', unit_task)]"
  have d: "distinct (map fst [(''unit'', unit_task)])"
    by simp
  have n: "ns tool_ok [''repo''] [(''unit'', unit_task)] = Inr ?reg"
    using ns_result[OF d, of tool_ok "[''repo'']"] by (simp add: qualify_def)
  from merged_test_tasks_are_addressable[OF d, of tool_ok "[''repo'']" no_args "state_of empty_fs"] n
  have l: "lookup ?reg ''test.unit'' = Inr unit_task"
    and i: "invoke_task ?reg ''test.unit'' no_args (state_of empty_fs)
              = resolve_and_run unit_task no_args (state_of empty_fs)"
    by auto
  have r: "resolve_and_run unit_task no_args (state_of empty_fs)
         = ([''unit''], None, (state_of empty_fs)\<lparr>printed := [''running unit tests'']\<rparr>)"
    by (simp add: resolve_and_run_def prerequisite_closure_def unit_task_def print_def state_of_def)
  have u: "lookup ?reg ''unit'' = Inl (UnknownTask ''unit'')"
    by (simp add: lookup_def top_level_def)
  from n l i r u show ?thesis
    by simp
qed

end
